theory Spec2Isabelle
  imports Complex_Main "HOL-Library.Char_ord" "HOL-Library.List_Lexorder" "HOL-Library.Multiset"
begin

section \<open>Retrieval and ranking pipeline of kb-api\<close>

text \<open>
  A shallow embedding of the ranking services under \<^verbatim>\<open>app/services\<close>:
  adaptive thresholding, reciprocal rank fusion, cosine similarity, BM25
  normalisation, cross-encoder reranking, MMR diversification and the response
  cache. A Python float is the real number it denotes; rank fusion, whose
  output order depends on the rounding, computes with rounded operations, the
  other stages with exact ones. Python's unbounded integers are \<open>int\<close>,
  exceptions are values of the type \<open>py_error\<close>.
\<close>

datatype py_error =
  ValueError | KeyError | IndexError | StopIteration | ZeroDivisionError | ExternalError

subsection \<open>Chunks and insertion-ordered dictionaries\<close>

text \<open>
  A chunk is a Python dict; the keys the ranking stages read or write are the
  fields of this record, a key that may be absent is an \<open>option\<close>. The
  elements of an input list are taken to be separate objects.
\<close>

record chunk =
  cid :: int
  chunk_text :: string
  embedding :: "real list option"
  score :: "real option"
  vector_rank :: "nat option"
  bm25_rank :: "nat option"
  rrf_score :: "real option"
  reranker_score :: "real option"
  original_score :: "real option"
  mmr_score :: "real option"

text \<open>
  A Python \<open>dict\<close> keeps its keys in insertion order; assigning to a key that
  is present replaces the value and keeps the position.
\<close>

fun dict_set :: "('k \<times> 'v) list \<Rightarrow> 'k \<Rightarrow> 'v \<Rightarrow> ('k \<times> 'v) list" where
  "dict_set [] k v = [(k, v)]"
| "dict_set ((k', v') # d) k v =
     (if k' = k then (k', v) # d else (k', v') # dict_set d k v)"

fun dict_del :: "('k \<times> 'v) list \<Rightarrow> 'k \<Rightarrow> ('k \<times> 'v) list" where
  "dict_del [] k = []"
| "dict_del ((k', v') # d) k = (if k' = k then d else (k', v') # dict_del d k)"

definition dict_get :: "('k \<times> 'v) list \<Rightarrow> 'k \<Rightarrow> 'v option" where
  "dict_get d k = map_of d k"

subsection \<open>Python helpers: slices, strings\<close>

text \<open>\<^verbatim>\<open>xs[:n]\<close> for an \<open>int\<close> \<open>n\<close>: a negative \<open>n\<close> counts from the end.\<close>

definition py_slice_to :: "'a list \<Rightarrow> int \<Rightarrow> 'a list" where
  "py_slice_to xs n =
     (if 0 \<le> n then take (nat n) xs else take (nat (int (length xs) + n)) xs)"

text \<open>
  A string is a list of code points below 256. \<^verbatim>\<open>str.isspace\<close>,
  \<^verbatim>\<open>str.lower\<close>, \<^verbatim>\<open>str.strip\<close> and \<^verbatim>\<open>str.split\<close> (no argument) on
  that range; the lower-case letter of an upper-case one is 32 above it, which
  is the same code with bit 5 set.
\<close>

definition is_space :: "char \<Rightarrow> bool" where
  "is_space c = (let n = (of_char c :: nat) in
     (9 \<le> n \<and> n \<le> 13) \<or> (28 \<le> n \<and> n \<le> 32) \<or> n = 133 \<or> n = 160)"

definition lower_char :: "char \<Rightarrow> char" where
  "lower_char c = (let n = (of_char c :: nat) in
     if (65 \<le> n \<and> n \<le> 90) \<or> (192 \<le> n \<and> n \<le> 222 \<and> n \<noteq> 215)
     then (case c of Char b0 b1 b2 b3 b4 b5 b6 b7 \<Rightarrow> Char b0 b1 b2 b3 b4 True b6 b7)
     else c)"

definition py_lower :: "string \<Rightarrow> string" where
  "py_lower s = map lower_char s"

definition py_strip :: "string \<Rightarrow> string" where
  "py_strip s = rev (dropWhile is_space (rev (dropWhile is_space s)))"

fun split_from :: "string \<Rightarrow> string \<Rightarrow> string list" where
  "split_from word [] = (if word = [] then [] else [rev word])"
| "split_from word (c # cs) =
     (if is_space c then (if word = [] then split_from [] cs else rev word # split_from [] cs)
      else split_from (c # word) cs)"

definition py_split :: "string \<Rightarrow> string list" where
  "py_split s = split_from [] s"

subsection \<open>Cosine similarity (\<^verbatim>\<open>hybrid_search.py\<close>, \<^verbatim>\<open>mmr.py\<close>)\<close>

text \<open>
  \<^verbatim>\<open>_cosine_similarity\<close> of the hybrid search: \<^verbatim>\<open>zip\<close> stops at the shorter
  vector, the magnitudes run over each whole vector, the result is clamped.
\<close>

definition cosine_similarity :: "real list \<Rightarrow> real list \<Rightarrow> real" where
  "cosine_similarity vec1 vec2 =
     (let dot_product = (\<Sum>(a, b)\<leftarrow>zip vec1 vec2. a * b);
          magnitude1 = sqrt (\<Sum>a\<leftarrow>vec1. a * a);
          magnitude2 = sqrt (\<Sum>b\<leftarrow>vec2. b * b)
      in if magnitude1 = 0 \<or> magnitude2 = 0 then 0
         else max 0 (min 1 (dot_product / (magnitude1 * magnitude2))))"

text \<open>
  \<^verbatim>\<open>cosine_similarity_np\<close> of the MMR module: \<^verbatim>\<open>np.dot\<close> of two vectors of
  different lengths raises \<^verbatim>\<open>ValueError\<close>; the quotient is returned as it is.
\<close>

definition cosine_similarity_np :: "real list \<Rightarrow> real list \<Rightarrow> py_error + real" where
  "cosine_similarity_np vec1 vec2 =
     (if length vec1 \<noteq> length vec2 then Inl ValueError
      else let dot_product = (\<Sum>(a, b)\<leftarrow>zip vec1 vec2. a * b);
               norm1 = sqrt (\<Sum>a\<leftarrow>vec1. a * a);
               norm2 = sqrt (\<Sum>b\<leftarrow>vec2. b * b)
           in if norm1 = 0 \<or> norm2 = 0 then Inr 0
              else Inr (dot_product / (norm1 * norm2)))"

subsection \<open>BM25 normalisation (\<^verbatim>\<open>hybrid_search.py\<close>)\<close>

text \<open>
  \<^verbatim>\<open>BM25Okapi\<close> comes from the package \<^verbatim>\<open>rank_bm25\<close>; index construction and
  \<^verbatim>\<open>get_scores\<close> are the parameter \<open>bm25\<close>, from the tokenised corpus and the
  tokenised query to the raw scores, one per chunk.
\<close>

type_synonym bm25_scorer = "string list list \<Rightarrow> string list \<Rightarrow> py_error + real list"

fun py_max :: "real list \<Rightarrow> py_error + real" where
  "py_max [] = Inl ValueError"
| "py_max (x # xs) = Inr (fold max xs x)"

definition normalize_scores :: "real list \<Rightarrow> py_error + real list" where
  "normalize_scores raw_scores =
     (case py_max raw_scores of
        Inl e \<Rightarrow> Inl e
      | Inr m \<Rightarrow>
          (let max_score = (if m > 0 then m else 1)
           in Inr (map (\<lambda>score. score / max_score) raw_scores)))"

definition compute_bm25_scores :: "bm25_scorer \<Rightarrow> string \<Rightarrow> chunk list \<Rightarrow> py_error + real list" where
  "compute_bm25_scores bm25 query chunks =
     (let tokenized_corpus = map (\<lambda>chunk. py_split (py_lower (chunk_text chunk))) chunks;
          tokenized_query = py_split (py_lower query)
      in case bm25 tokenized_corpus tokenized_query of
           Inl e \<Rightarrow> Inl e
         | Inr raw_scores \<Rightarrow> normalize_scores raw_scores)"

subsection \<open>Cross-encoder reranking (\<^verbatim>\<open>reranker.py\<close>)\<close>

text \<open>
  The cross-encoder is external: \<open>get_reranker\<close> is either the error raised
  while loading the model or its \<^verbatim>\<open>predict\<close>, which maps the (query, text)
  pairs to scores or raises.
\<close>

type_synonym predictor = "(string \<times> string) list \<Rightarrow> py_error + real list"

text \<open>The loop over \<^verbatim>\<open>zip(chunks, scores)\<close>; chunks beyond the scores stay as they are.\<close>

fun add_reranker_scores :: "chunk list \<Rightarrow> real list \<Rightarrow> chunk list" where
  "add_reranker_scores (chunk # chunks) (s # scores) =
     chunk\<lparr>reranker_score := Some s,
           original_score := Some (case score chunk of None \<Rightarrow> 0 | Some x \<Rightarrow> x),
           score := Some s\<rparr> # add_reranker_scores chunks scores"
| "add_reranker_scores chunks [] = chunks"
| "add_reranker_scores [] scores = []"

text \<open>
  Every exception of the \<^verbatim>\<open>try\<close> block ends in \<^verbatim>\<open>chunks[:top_k]\<close>: a failure
  to load, a failing \<^verbatim>\<open>predict\<close>, the \<^verbatim>\<open>KeyError\<close> of the sort key on a chunk
  that got no score, the \<^verbatim>\<open>IndexError\<close> of \<^verbatim>\<open>reranked[0]\<close> in the log line.
  The chunks are mutated in place, so the last two return the updated chunks.
\<close>

definition rerank_chunks :: "(py_error + predictor) \<Rightarrow> string \<Rightarrow> chunk list \<Rightarrow> int \<Rightarrow> chunk list" where
  "rerank_chunks get_reranker query chunks top_k =
     (if chunks = [] then []
      else case get_reranker of
        Inl e \<Rightarrow> py_slice_to chunks top_k
      | Inr predict \<Rightarrow>
          (case predict (map (\<lambda>chunk. (query, chunk_text chunk)) chunks) of
             Inl e \<Rightarrow> py_slice_to chunks top_k
           | Inr scores \<Rightarrow>
               (let chunks' = add_reranker_scores chunks scores
                in if \<exists>c \<in> set chunks'. reranker_score c = None
                   then py_slice_to chunks' top_k
                   else let reranked =
                          py_slice_to (sort_key (\<lambda>x. - the (reranker_score x)) chunks') top_k
                        in if reranked = [] then py_slice_to chunks' top_k else reranked)))"

subsection \<open>MMR diversification (\<^verbatim>\<open>mmr.py\<close>)\<close>

text \<open>\<^verbatim>\<open>chunk.get("score", 0.0)\<close>.\<close>

definition score_or_zero :: "chunk \<Rightarrow> real" where
  "score_or_zero chunk = (case score chunk of None \<Rightarrow> 0 | Some s \<Rightarrow> s)"

text \<open>
  The list comprehension over \<^verbatim>\<open>selected\<close>; \<^verbatim>\<open>s.get("embedding", [])\<close> of a
  chunk without embedding is the empty vector.
\<close>

fun similarities :: "real list \<Rightarrow> chunk list \<Rightarrow> py_error + real list" where
  "similarities chunk_emb [] = Inr []"
| "similarities chunk_emb (s # selected) =
     (case cosine_similarity_np chunk_emb (case embedding s of None \<Rightarrow> [] | Some e \<Rightarrow> e) of
        Inl e \<Rightarrow> Inl e
      | Inr x \<Rightarrow>
          (case similarities chunk_emb selected of
             Inl e \<Rightarrow> Inl e
           | Inr xs \<Rightarrow> Inr (x # xs)))"

text \<open>
  The body of the inner \<^verbatim>\<open>for\<close> loop: the value appended to
  \<^verbatim>\<open>mmr_scores\<close> for one remaining chunk. \<^verbatim>\<open>not chunk_emb\<close> holds for a
  missing embedding and for an empty one.
\<close>

definition candidate_score :: "real list \<Rightarrow> real \<Rightarrow> chunk list \<Rightarrow> chunk \<Rightarrow> py_error + real" where
  "candidate_score query_embedding lambda_param selected chunk =
     (case embedding chunk of
        None \<Rightarrow> Inr (score_or_zero chunk)
      | Some chunk_emb \<Rightarrow>
          if chunk_emb = [] then Inr (score_or_zero chunk)
          else
            (case cosine_similarity_np query_embedding chunk_emb of
               Inl e \<Rightarrow> Inl e
             | Inr relevance \<Rightarrow>
                 if selected = [] then Inr (lambda_param * relevance - (1 - lambda_param) * 0)
                 else
                   (case similarities chunk_emb selected of
                      Inl e \<Rightarrow> Inl e
                    | Inr sims \<Rightarrow>
                        (case (if sims = [] then Inr 0 else py_max sims) of
                           Inl e \<Rightarrow> Inl e
                         | Inr max_similarity \<Rightarrow>
                             Inr (lambda_param * relevance - (1 - lambda_param) * max_similarity)))))"

fun mmr_scores_of :: "real list \<Rightarrow> real \<Rightarrow> chunk list \<Rightarrow> chunk list \<Rightarrow> py_error + real list" where
  "mmr_scores_of q lam selected [] = Inr []"
| "mmr_scores_of q lam selected (chunk # remaining) =
     (case candidate_score q lam selected chunk of
        Inl e \<Rightarrow> Inl e
      | Inr x \<Rightarrow>
          (case mmr_scores_of q lam selected remaining of
             Inl e \<Rightarrow> Inl e
           | Inr xs \<Rightarrow> Inr (x # xs)))"

text \<open>\<^verbatim>\<open>np.argmax\<close>: the first index of the maximum.\<close>

fun np_argmax :: "real list \<Rightarrow> nat" where
  "np_argmax [] = 0"
| "np_argmax (x # xs) = (if list_all (\<lambda>y. y \<le> x) xs then 0 else Suc (np_argmax xs))"

definition pop :: "'a list \<Rightarrow> nat \<Rightarrow> 'a list" where
  "pop xs i = take i xs @ drop (Suc i) xs"

text \<open>
  The \<^verbatim>\<open>while\<close> loop. A chunk is paired with its position in the input
  list, which stands for the identity of the dict object: the loop writes
  \<^verbatim>\<open>mmr_score\<close> into the objects of the input list. An exception ends the
  loop with the chunks selected so far.
\<close>

function mmr_loop :: "real list \<Rightarrow> real \<Rightarrow> int \<Rightarrow> (nat \<times> chunk) list \<Rightarrow> (nat \<times> chunk) list
    \<Rightarrow> (py_error \<times> (nat \<times> chunk) list) + (nat \<times> chunk) list" where
  "mmr_loop q lam top_k selected remaining =
     (if int (length selected) < top_k \<and> remaining \<noteq> [] then
        (case mmr_scores_of q lam (map snd selected) (map snd remaining) of
           Inl e \<Rightarrow> Inl (e, selected)
         | Inr mmr_scores \<Rightarrow>
             (let best_idx = np_argmax mmr_scores in
              if best_idx < length remaining \<and> best_idx < length mmr_scores then
                (let best_chunk = snd (remaining ! best_idx)
                                    \<lparr>mmr_score := Some (mmr_scores ! best_idx)\<rparr>
                 in mmr_loop q lam top_k
                      (selected @ [(fst (remaining ! best_idx), best_chunk)])
                      (pop remaining best_idx))
              else Inl (IndexError, selected)))
      else Inr selected)"
  by pat_completeness auto
termination
  by (relation "measure (\<lambda>(q, lam, top_k, selected, remaining). length remaining)")
     (auto simp: pop_def)

text \<open>The input list as the \<^verbatim>\<open>except\<close> branch sees it, after the writes of the loop.\<close>

definition chunks_after :: "(nat \<times> chunk) list \<Rightarrow> chunk list \<Rightarrow> chunk list" where
  "chunks_after selected chunks =
     map (\<lambda>(i, c). case map_of selected i of None \<Rightarrow> c | Some c' \<Rightarrow> c')
       (zip [0..<length chunks] chunks)"

definition mmr_diversify :: "chunk list \<Rightarrow> real list \<Rightarrow> int \<Rightarrow> real \<Rightarrow> chunk list" where
  "mmr_diversify chunks query_embedding top_k lambda_param =
     (if chunks = [] \<or> query_embedding = [] then py_slice_to chunks top_k
      else if int (length chunks) \<le> top_k then chunks
      else
        (case mmr_loop query_embedding lambda_param top_k [] (zip [0..<length chunks] chunks) of
           Inr selected \<Rightarrow> map snd selected
         | Inl (e, selected) \<Rightarrow> py_slice_to (chunks_after selected chunks) top_k))"

text \<open>
  \<^verbatim>\<open>not chunk_emb\<close>: the chunk has no usable embedding. The second notion is
  the invariant of the loop used below.
\<close>

definition no_embedding :: "chunk \<Rightarrow> bool" where
  "no_embedding c = (embedding c = None \<or> embedding c = Some [])"

definition fallback_recorded :: "(nat \<times> chunk) list \<Rightarrow> bool" where
  "fallback_recorded sel =
     list_all (\<lambda>(i, c). no_embedding c \<longrightarrow> mmr_score c = Some (score_or_zero c)) sel"

subsection \<open>Reciprocal rank fusion (\<^verbatim>\<open>rrf.py\<close>)\<close>

text \<open>
  The fused scores are Python floats, IEEE-754 binary64 numbers: a float is
  the real number it denotes, and an operation returns the exact result rounded
  to the nearest number with 53 significant bits and exponent at least
  \<open>- 1022\<close>, a tie going to the even significand. The exponent of a
  magnitude is found by doubling it up to \<open>1\<close> (at most 1022 times, below
  that the numbers are subnormal) or halving it down below \<open>2\<close> (at most
  1023 times). Overflow, a magnitude of \<open>2 ^ 1024\<close> and above, is left
  out: a score is a short sum of reciprocals of integers.
  \<^verbatim>\<open>a / b\<close> on two \<^verbatim>\<open>int\<close>s is the correctly rounded quotient.
\<close>

definition round_half_even :: "real \<Rightarrow> int" where
  "round_half_even x =
     (let f = \<lfloor>x\<rfloor>; r = x - of_int f
      in if r < 1 / 2 then f else if 1 / 2 < r then f + 1 else if even f then f else f + 1)"

fun exponent_below :: "nat \<Rightarrow> real \<Rightarrow> int" where
  "exponent_below 0 x = 0"
| "exponent_below (Suc n) x = (if 1 \<le> x then 0 else exponent_below n (2 * x) - 1)"

fun exponent_above :: "nat \<Rightarrow> real \<Rightarrow> int" where
  "exponent_above 0 x = 0"
| "exponent_above (Suc n) x = (if x < 2 then 0 else exponent_above n (x / 2) + 1)"

definition exponent :: "real \<Rightarrow> int" where
  "exponent x = (if \<bar>x\<bar> < 1 then exponent_below 1022 \<bar>x\<bar> else exponent_above 1023 \<bar>x\<bar>)"

definition round_binary64 :: "real \<Rightarrow> real" where
  "round_binary64 x =
     (if x = 0 then 0
      else let e = exponent x
           in of_int (round_half_even (x * 2 powi (52 - e))) * 2 powi (e - 52))"

definition float_add :: "real \<Rightarrow> real \<Rightarrow> real" where
  "float_add x y = round_binary64 (x + y)"

definition int_true_div :: "int \<Rightarrow> int \<Rightarrow> real" where
  "int_true_div a b = round_binary64 (of_int a / of_int b)"

record rrf_state =
  rrf_scores :: "(int \<times> real) list"
  chunk_data :: "(int \<times> chunk) list"

text \<open>\<^verbatim>\<open>rrf_scores[chunk_id] += x\<close> on a \<^verbatim>\<open>defaultdict(float)\<close>, whose default is \<^verbatim>\<open>0.0\<close>.\<close>

definition scores_add :: "(int \<times> real) list \<Rightarrow> int \<Rightarrow> real \<Rightarrow> (int \<times> real) list" where
  "scores_add d k x =
     dict_set d k (float_add (case dict_get d k of None \<Rightarrow> 0 | Some v \<Rightarrow> v) x)"

definition vector_step :: "int \<Rightarrow> nat \<Rightarrow> chunk \<Rightarrow> rrf_state \<Rightarrow> rrf_state" where
  "vector_step k rank c st =
     \<lparr>rrf_scores = scores_add (rrf_scores st) (cid c) (int_true_div 1 (k + int rank + 1)),
      chunk_data = dict_set (chunk_data st) (cid c)
         (if vector_rank c = None then c\<lparr>vector_rank := Some (rank + 1)\<rparr> else c)\<rparr>"

definition bm25_step :: "int \<Rightarrow> nat \<Rightarrow> chunk \<Rightarrow> rrf_state \<Rightarrow> rrf_state" where
  "bm25_step k rank c st =
     \<lparr>rrf_scores = scores_add (rrf_scores st) (cid c) (int_true_div 1 (k + int rank + 1)),
      chunk_data =
        (case dict_get (chunk_data st) (cid c) of
           None \<Rightarrow> dict_set (chunk_data st) (cid c) (c\<lparr>bm25_rank := Some (rank + 1)\<rparr>)
         | Some c' \<Rightarrow> dict_set (chunk_data st) (cid c) (c'\<lparr>bm25_rank := Some (rank + 1)\<rparr>))\<rparr>"

text \<open>The two \<^verbatim>\<open>enumerate\<close> loops; \<open>k + rank + 1 = 0\<close> is a division by zero.\<close>

fun process_vector :: "int \<Rightarrow> nat \<Rightarrow> chunk list \<Rightarrow> rrf_state \<Rightarrow> py_error + rrf_state" where
  "process_vector k rank [] st = Inr st"
| "process_vector k rank (c # cs) st =
     (if k + int rank + 1 = 0 then Inl ZeroDivisionError
      else process_vector k (Suc rank) cs (vector_step k rank c st))"

fun process_bm25 :: "int \<Rightarrow> nat \<Rightarrow> chunk list \<Rightarrow> rrf_state \<Rightarrow> py_error + rrf_state" where
  "process_bm25 k rank [] st = Inr st"
| "process_bm25 k rank (c # cs) st =
     (if k + int rank + 1 = 0 then Inl ZeroDivisionError
      else process_bm25 k (Suc rank) cs (bm25_step k rank c st))"

text \<open>
  \<^verbatim>\<open>sorted(rrf_scores.items(), key=lambda x: x[1], reverse=True)\<close>: a stable
  sort, descending by the computed score.
\<close>

definition sorted_ids :: "(int \<times> real) list \<Rightarrow> (int \<times> real) list" where
  "sorted_ids items = sort_key (\<lambda>x. - snd x) items"

fun build_results :: "(int \<times> chunk) list \<Rightarrow> (int \<times> real) list \<Rightarrow> py_error + chunk list" where
  "build_results data [] = Inr []"
| "build_results data ((chunk_id, s) # rest) =
     (case dict_get data chunk_id of
        None \<Rightarrow> Inl KeyError
      | Some c \<Rightarrow>
          (case build_results data rest of
             Inl e \<Rightarrow> Inl e
           | Inr results \<Rightarrow> Inr (c\<lparr>rrf_score := Some s, score := Some s\<rparr> # results)))"

definition reciprocal_rank_fusion :: "chunk list \<Rightarrow> chunk list \<Rightarrow> int \<Rightarrow> py_error + chunk list" where
  "reciprocal_rank_fusion vector_results bm25_results k =
     (case process_vector k 0 vector_results \<lparr>rrf_scores = [], chunk_data = []\<rparr> of
        Inl e \<Rightarrow> Inl e
      | Inr st1 \<Rightarrow>
          (case process_bm25 k 0 bm25_results st1 of
             Inl e \<Rightarrow> Inl e
           | Inr st2 \<Rightarrow> build_results (chunk_data st2) (sorted_ids (rrf_scores st2))))"

text \<open>
  Notions used to state the fusion property: the ids of a list in the order of
  their first occurrence; the 1-indexed rank of an id in a list (0 when it is
  absent); the float that the code's running sum holds for an id after one
  list, starting from \<open>s\<close> at rank \<open>r + 1\<close>; and the fused score of an id,
  the running sum from \<^verbatim>\<open>0.0\<close> over the vector list and then the BM25 list.
\<close>

fun first_seen :: "'a list \<Rightarrow> 'a list" where
  "first_seen [] = []"
| "first_seen (x # xs) = x # filter (\<lambda>y. y \<noteq> x) (first_seen xs)"

fun rank_in :: "int list \<Rightarrow> int \<Rightarrow> nat" where
  "rank_in [] i = 0"
| "rank_in (x # xs) i = (if x = i then 1 else if i \<in> set xs then Suc (rank_in xs i) else 0)"

fun running_sum :: "int \<Rightarrow> nat \<Rightarrow> int list \<Rightarrow> int \<Rightarrow> real \<Rightarrow> real" where
  "running_sum k r [] i s = s"
| "running_sum k r (x # ids) i s =
     running_sum k (Suc r) ids i
       (if x = i then float_add s (int_true_div 1 (k + int r + 1)) else s)"

definition rrf_value :: "int \<Rightarrow> int list \<Rightarrow> int list \<Rightarrow> int \<Rightarrow> real" where
  "rrf_value k vids bids i = running_sum k 0 bids i (running_sum k 0 vids i 0)"

text \<open>Auxiliary notions of the proofs about the two accumulation loops.\<close>

definition lookup0 :: "(int \<times> real) list \<Rightarrow> int \<Rightarrow> real" where
  "lookup0 d i = (case map_of d i of None \<Rightarrow> 0 | Some v \<Rightarrow> v)"

definition keyed :: "(int \<times> chunk) list \<Rightarrow> bool" where
  "keyed d = (\<forall>i c. map_of d i = Some c \<longrightarrow> cid c = i)"

definition plain_chunk :: "int \<Rightarrow> chunk" where
  "plain_chunk i = \<lparr>cid = i, chunk_text = [], embedding = None, score = None,
     vector_rank = None, bm25_rank = None, rrf_score = None, reranker_score = None,
     original_score = None, mmr_score = None\<rparr>"

subsection \<open>Response cache (\<^verbatim>\<open>cache.py\<close>)\<close>

text \<open>
  \<^verbatim>\<open>_generate_cache_key\<close> builds the dict \<^verbatim>\<open>key_data\<close> and returns
  \<^verbatim>\<open>hashlib.sha256(json.dumps(key_data, sort_keys=True).encode()).hexdigest()\<close>.
  Serialisation and hash are library code: their composition is the parameter
  \<open>digest\<close>, from the dict to the key.
\<close>

record key_data =
  kd_query :: string
  kd_doc_ids :: "string list"
  kd_top_k :: int

definition key_data_of :: "string \<Rightarrow> string list option \<Rightarrow> int \<Rightarrow> key_data" where
  "key_data_of query doc_ids top_k =
     (let normalized_query = py_strip (py_lower query);
          sorted_doc_ids = (case doc_ids of
                              None \<Rightarrow> []
                            | Some ds \<Rightarrow> if ds = [] then [] else sort ds)
      in \<lparr>kd_query = normalized_query, kd_doc_ids = sorted_doc_ids, kd_top_k = top_k\<rparr>)"

definition generate_cache_key :: "(key_data \<Rightarrow> 'k) \<Rightarrow> string \<Rightarrow> string list option \<Rightarrow> int \<Rightarrow> 'k" where
  "generate_cache_key digest query doc_ids top_k = digest (key_data_of query doc_ids top_k)"

text \<open>
  The cache object. \<^verbatim>\<open>self.cache\<close> is a dict in insertion order; a time is
  a number of microseconds, the resolution of \<^verbatim>\<open>datetime\<close>, and
  \<^verbatim>\<open>datetime.now()\<close> is the argument \<open>now\<close> of each call.
\<close>

record 'r cache_entry =
  response :: 'r
  cached_at :: int

record ('k, 'r) response_cache =
  cache :: "('k \<times> 'r cache_entry) list"
  max_size :: int
  ttl_hours :: int

definition timedelta_hours :: "int \<Rightarrow> int" where
  "timedelta_hours h = h * 3600000000"

definition cache_get :: "(key_data \<Rightarrow> 'k) \<Rightarrow> ('k, 'r) response_cache \<Rightarrow> int \<Rightarrow> string
    \<Rightarrow> string list option \<Rightarrow> int \<Rightarrow> 'r option \<times> ('k, 'r) response_cache" where
  "cache_get digest c now query doc_ids top_k =
     (let cache_key = generate_cache_key digest query doc_ids top_k
      in case dict_get (cache c) cache_key of
           Some cached_item \<Rightarrow>
             (let expiry_time = cached_at cached_item + timedelta_hours (ttl_hours c)
              in if now < expiry_time then (Some (response cached_item), c)
                 else (None, c\<lparr>cache := dict_del (cache c) cache_key\<rparr>))
         | None \<Rightarrow> (None, c))"

text \<open>
  \<^verbatim>\<open>next(iter(self.cache))\<close> on an empty dict raises \<^verbatim>\<open>StopIteration\<close>,
  before anything is written.
\<close>

definition cache_set :: "(key_data \<Rightarrow> 'k) \<Rightarrow> ('k, 'r) response_cache \<Rightarrow> int \<Rightarrow> string
    \<Rightarrow> string list option \<Rightarrow> int \<Rightarrow> 'r \<Rightarrow> py_error + ('k, 'r) response_cache" where
  "cache_set digest c now query doc_ids top_k resp =
     (let cache_key = generate_cache_key digest query doc_ids top_k;
          entry = \<lparr>response = resp, cached_at = now\<rparr>
      in if int (length (cache c)) \<ge> max_size c then
           (case cache c of
              [] \<Rightarrow> Inl StopIteration
            | (oldest_key, oldest) # rest \<Rightarrow>
                Inr (c\<lparr>cache := dict_set (dict_del (cache c) oldest_key) cache_key entry\<rparr>))
         else Inr (c\<lparr>cache := dict_set (cache c) cache_key entry\<rparr>))"

definition new_cache :: "int \<Rightarrow> int \<Rightarrow> ('k, 'r) response_cache" where
  "new_cache capacity ttl = \<lparr>cache = [], max_size = capacity, ttl_hours = ttl\<rparr>"

text \<open>
  A client of the cache: a sequence of \<^verbatim>\<open>get\<close> and \<^verbatim>\<open>set\<close> calls, each with
  its clock reading; a \<^verbatim>\<open>set\<close> that raises leaves the cache as it was.
\<close>

datatype 'r cache_op =
  GetOp int string "string list option" int
| SetOp int string "string list option" int 'r

fun run_ops :: "(key_data \<Rightarrow> 'k) \<Rightarrow> ('k, 'r) response_cache \<Rightarrow> 'r cache_op list
    \<Rightarrow> ('k, 'r) response_cache" where
  "run_ops digest c [] = c"
| "run_ops digest c (GetOp now q ds k # ops) =
     run_ops digest (snd (cache_get digest c now q ds k)) ops"
| "run_ops digest c (SetOp now q ds k r # ops) =
     (case cache_set digest c now q ds k r of
        Inl e \<Rightarrow> run_ops digest c ops
      | Inr c' \<Rightarrow> run_ops digest c' ops)"

text \<open>
  The entries that the \<^verbatim>\<open>set\<close> calls of a sequence write, in call order, and
  the clock reading of a call.
\<close>

fun set_entries :: "(key_data \<Rightarrow> 'k) \<Rightarrow> 'r cache_op list \<Rightarrow> ('k \<times> 'r cache_entry) list" where
  "set_entries digest [] = []"
| "set_entries digest (GetOp now q ds k # ops) = set_entries digest ops"
| "set_entries digest (SetOp now q ds k r # ops) =
     (generate_cache_key digest q ds k, \<lparr>response = r, cached_at = now\<rparr>) # set_entries digest ops"

fun op_time :: "'r cache_op \<Rightarrow> int" where
  "op_time (GetOp now q ds k) = now"
| "op_time (SetOp now q ds k r) = now"

text \<open>
  The store of the specification, to compare the code with: a bounded
  key-value store in which every stored key carries the number of the call
  that inserted it. \<^verbatim>\<open>get\<close> returns the response of a present entry that has
  not expired, deletes a present entry that has, and misses otherwise.
  \<^verbatim>\<open>set\<close> on a store at \<open>max_size\<close> first evicts the key that was inserted
  earliest, the one with the least number; then it inserts: a key that is not
  stored is stored under the number of this call, a key that is stored gets the
  new entry and stays the key that the earlier call inserted. No operation
  looks at the order of the list that holds the store.
\<close>

record ('k, 'r) stored =
  skey :: 'k
  inserted_by :: nat
  sentry :: "'r cache_entry"

definition spec_oldest :: "('k, 'r) stored list \<Rightarrow> 'k" where
  "spec_oldest s = skey (arg_min_list inserted_by s)"

definition spec_get :: "('k, 'r) stored list \<Rightarrow> int \<Rightarrow> int \<Rightarrow> 'k
    \<Rightarrow> 'r option \<times> ('k, 'r) stored list" where
  "spec_get s ttl now key =
     (case find (\<lambda>x. skey x = key) s of
        None \<Rightarrow> (None, s)
      | Some x \<Rightarrow>
          if now < cached_at (sentry x) + timedelta_hours ttl then (Some (response (sentry x)), s)
          else (None, filter (\<lambda>y. skey y \<noteq> key) s))"

definition spec_set :: "('k, 'r) stored list \<Rightarrow> int \<Rightarrow> nat \<Rightarrow> 'k \<Rightarrow> 'r cache_entry
    \<Rightarrow> ('k, 'r) stored list" where
  "spec_set s capacity n key e =
     (let s1 = (if int (length s) = capacity then filter (\<lambda>y. skey y \<noteq> spec_oldest s) s else s)
      in if list_ex (\<lambda>y. skey y = key) s1
         then map (\<lambda>y. if skey y = key then y\<lparr>sentry := e\<rparr> else y) s1
         else \<lparr>skey = key, inserted_by = n, sentry = e\<rparr> # s1)"

text \<open>The calls of a sequence on the store of the specification, numbered from \<open>n\<close>.\<close>

fun spec_run :: "(key_data \<Rightarrow> 'k) \<Rightarrow> int \<Rightarrow> int \<Rightarrow> nat \<Rightarrow> ('k, 'r) stored list
    \<Rightarrow> 'r cache_op list \<Rightarrow> ('k, 'r) stored list" where
  "spec_run digest capacity ttl n s [] = s"
| "spec_run digest capacity ttl n s (GetOp now q ds k # ops) =
     spec_run digest capacity ttl (Suc n)
       (snd (spec_get s ttl now (generate_cache_key digest q ds k))) ops"
| "spec_run digest capacity ttl n s (SetOp now q ds k r # ops) =
     spec_run digest capacity ttl (Suc n)
       (spec_set s capacity n (generate_cache_key digest q ds k) \<lparr>response = r, cached_at = now\<rparr>) ops"

text \<open>The key and entry of a stored item, as the code's dict holds them.\<close>

definition item_of :: "('k, 'r) stored \<Rightarrow> 'k \<times> 'r cache_entry" where
  "item_of x = (skey x, sentry x)"

text \<open>A call that is a \<^verbatim>\<open>set\<close> of the given key.\<close>

fun sets_key :: "(key_data \<Rightarrow> 'k) \<Rightarrow> 'r cache_op \<Rightarrow> 'k \<Rightarrow> bool" where
  "sets_key digest (GetOp now q ds k) key = False"
| "sets_key digest (SetOp now q ds k r) key = (generate_cache_key digest q ds k = key)"

text \<open>
  Auxiliary notion of the refinement proof: the code's dict is the store of the
  specification read from its last item to its first, the insertion numbers
  fall along the store and lie below the number of the next call, and no key is
  stored twice.
\<close>

definition sim :: "int \<Rightarrow> int \<Rightarrow> nat \<Rightarrow> ('k, 'r) response_cache \<Rightarrow> ('k, 'r) stored list \<Rightarrow> bool" where
  "sim capacity ttl n c s \<longleftrightarrow>
     cache c = rev (map item_of s)
     \<and> sorted_wrt (\<lambda>x y. inserted_by y < inserted_by x) s
     \<and> list_all (\<lambda>x. inserted_by x < n) s
     \<and> distinct (map skey s)
     \<and> max_size c = capacity \<and> ttl_hours c = ttl
     \<and> int (length s) \<le> capacity"

text \<open>\<^verbatim>\<open>doc_ids\<close> as a list: \<^verbatim>\<open>None\<close> is the empty list.\<close>

definition ids_of :: "string list option \<Rightarrow> string list" where
  "ids_of doc_ids = (case doc_ids of None \<Rightarrow> [] | Some ds \<Rightarrow> ds)"

subsection \<open>The cache calls of \<^verbatim>\<open>/ask\<close> (\<^verbatim>\<open>routers/ask.py\<close>)\<close>

text \<open>
  The three flags are \<^verbatim>\<open>Optional[bool]\<close>; \<^verbatim>\<open>None\<close> counts as false. The
  lookup and the store pass the preprocessed query with the suffix appended.
\<close>

definition truthy :: "bool option \<Rightarrow> bool" where
  "truthy b = (b = Some True)"

definition cache_key_suffix :: "bool option \<Rightarrow> bool option \<Rightarrow> bool option \<Rightarrow> string" where
  "cache_key_suffix use_hybrid use_reranker use_mmr =
     (if truthy use_hybrid then ''_hybrid'' else [])
     @ (if truthy use_reranker then ''_reranker'' else [])
     @ (if truthy use_mmr then ''_mmr'' else [])"

definition ask_cache_lookup :: "(key_data \<Rightarrow> 'k) \<Rightarrow> ('k, 'r) response_cache \<Rightarrow> int \<Rightarrow> string
    \<Rightarrow> string list option \<Rightarrow> int \<Rightarrow> bool option \<Rightarrow> bool option \<Rightarrow> bool option
    \<Rightarrow> 'r option \<times> ('k, 'r) response_cache" where
  "ask_cache_lookup digest c now preprocessed_query doc_ids top_k use_hybrid use_reranker use_mmr =
     cache_get digest c now
       (preprocessed_query @ cache_key_suffix use_hybrid use_reranker use_mmr) doc_ids top_k"

definition ask_cache_store :: "(key_data \<Rightarrow> 'k) \<Rightarrow> ('k, 'r) response_cache \<Rightarrow> int \<Rightarrow> string
    \<Rightarrow> string list option \<Rightarrow> int \<Rightarrow> bool option \<Rightarrow> bool option \<Rightarrow> bool option \<Rightarrow> 'r
    \<Rightarrow> py_error + ('k, 'r) response_cache" where
  "ask_cache_store digest c now preprocessed_query doc_ids top_k use_hybrid use_reranker use_mmr
       cache_data =
     cache_set digest c now
       (preprocessed_query @ cache_key_suffix use_hybrid use_reranker use_mmr) doc_ids top_k
       cache_data"

subsection \<open>Adaptive threshold (\<^verbatim>\<open>retrieve.py\<close>)\<close>

text \<open>
  \<^verbatim>\<open>calculate_adaptive_threshold(scores, base_threshold=0.3)\<close>: the empty
  list gives the base threshold, otherwise only \<^verbatim>\<open>scores[0]\<close> is read.
\<close>

fun calculate_adaptive_threshold :: "real list \<Rightarrow> real \<Rightarrow> real" where
  "calculate_adaptive_threshold [] base_threshold = base_threshold"
| "calculate_adaptive_threshold (top_score # rest) base_threshold =
     (if top_score > 0.7 then 0.5
      else if top_score < 0.4 then 0.2
      else base_threshold)"

definition default_base_threshold :: real where
  "default_base_threshold = 0.3"

section \<open>Properties\<close>

subsection \<open>Adaptive threshold\<close>

text \<open>
  Claim C5. For every score list, \<open>calculate_adaptive_threshold\<close> returns 0.5
  when the top score exceeds 0.7, 0.2 when the top score is below 0.4, and the
  caller's base threshold otherwise; the empty list gives the base threshold.
  In particular \<open>[0.9, 0.6, 0.5]\<close> gives 0.5, \<open>[0.35, 0.2]\<close> gives 0.2 and
  \<open>[0.5, 0.4]\<close> gives the base threshold (0.3 by default).
\<close>

theorem adaptive_threshold_cases:
  "(scores \<noteq> [] \<and> hd scores > 0.7 \<longrightarrow> calculate_adaptive_threshold scores b = 0.5)
   \<and> (scores \<noteq> [] \<and> hd scores < 0.4 \<longrightarrow> calculate_adaptive_threshold scores b = 0.2)
   \<and> (scores \<noteq> [] \<and> 0.4 \<le> hd scores \<and> hd scores \<le> 0.7
        \<longrightarrow> calculate_adaptive_threshold scores b = b)
   \<and> calculate_adaptive_threshold [] b = b
   \<and> calculate_adaptive_threshold [0.9, 0.6, 0.5] b = 0.5
   \<and> calculate_adaptive_threshold [0.35, 0.2] b = 0.2
   \<and> calculate_adaptive_threshold [0.5, 0.4] b = b
   \<and> calculate_adaptive_threshold [0.5, 0.4] default_base_threshold = 0.3"
  by (cases scores) (simp_all add: default_base_threshold_def)

theorem adaptive_threshold_cases_witness:
  "calculate_adaptive_threshold [0.8, 0.1] 0.3 = 0.5
   \<and> calculate_adaptive_threshold [0.1] 0.3 = 0.2
   \<and> calculate_adaptive_threshold [0.6, 0.5] 0.25 = 0.25"
  using adaptive_threshold_cases [of "[0.8, 0.1]" "0.3"]
        adaptive_threshold_cases [of "[0.1]" "0.3"]
        adaptive_threshold_cases [of "[0.6, 0.5]" "0.25"]
  by simp

subsection \<open>Reciprocal rank fusion\<close>

lemma set_first_seen [simp]: "set (first_seen xs) = set xs"
  by (induction xs) auto

lemma distinct_first_seen [simp]: "distinct (first_seen xs)"
  by (induction xs) auto

lemma first_seen_append:
  "first_seen (xs @ ys) = first_seen xs @ filter (\<lambda>y. y \<notin> set xs) (first_seen ys)"
  by (induction xs) (auto simp: conj_commute intro!: filter_cong)

lemma map_of_dict_set [simp]: "map_of (dict_set d k v) = (map_of d)(k \<mapsto> v)"
  by (induction d k v rule: dict_set.induct) auto

lemma keys_dict_set:
  "map fst (dict_set d k v) = (if k \<in> set (map fst d) then map fst d else map fst d @ [k])"
  by (induction d k v rule: dict_set.induct) auto

lemma keys_step:
  "(if x \<in> set ks then ks else ks @ [x])
     @ filter (\<lambda>y. y \<notin> set (if x \<in> set ks then ks else ks @ [x])) (first_seen rest)
   = ks @ filter (\<lambda>y. y \<notin> set ks) (first_seen (x # rest))"
  by (auto simp: conj_commute intro!: filter_cong)

lemma lookup0_scores_add:
  "lookup0 (scores_add d k x) i = (if i = k then float_add (lookup0 d i) x else lookup0 d i)"
  by (simp add: lookup0_def scores_add_def dict_get_def)

lemma keys_scores_add:
  "map fst (scores_add d k x) = (if k \<in> set (map fst d) then map fst d else map fst d @ [k])"
  by (simp add: scores_add_def keys_dict_set)

lemma process_vector_ok:
  "0 \<le> k \<Longrightarrow> keyed (chunk_data st) \<Longrightarrow>
   \<exists>st'. process_vector k r cs st = Inr st'
     \<and> (\<forall>i. lookup0 (rrf_scores st') i = running_sum k r (map cid cs) i (lookup0 (rrf_scores st) i))
     \<and> map fst (rrf_scores st') = map fst (rrf_scores st)
          @ filter (\<lambda>y. y \<notin> set (map fst (rrf_scores st))) (first_seen (map cid cs))
     \<and> map fst (chunk_data st') = map fst (chunk_data st)
          @ filter (\<lambda>y. y \<notin> set (map fst (chunk_data st))) (first_seen (map cid cs))
     \<and> keyed (chunk_data st')"
proof (induction cs arbitrary: r st)
  case Nil
  then show ?case by simp
next
  case (Cons c cs)
  let ?st = "vector_step k r c st"
  have k1: "keyed (chunk_data ?st)"
    using Cons.prems(2) by (auto simp: keyed_def vector_step_def)
  from Cons.IH [OF Cons.prems(1) k1, of "Suc r"] obtain st' where
    st': "process_vector k (Suc r) cs ?st = Inr st'"
    and sc: "\<And>i. lookup0 (rrf_scores st') i = running_sum k (Suc r) (map cid cs) i (lookup0 (rrf_scores ?st) i)"
    and ks: "map fst (rrf_scores st') = map fst (rrf_scores ?st)
          @ filter (\<lambda>y. y \<notin> set (map fst (rrf_scores ?st))) (first_seen (map cid cs))"
    and kd: "map fst (chunk_data st') = map fst (chunk_data ?st)
          @ filter (\<lambda>y. y \<notin> set (map fst (chunk_data ?st))) (first_seen (map cid cs))"
    and ky: "keyed (chunk_data st')"
    by blast
  have nz: "k + int r + 1 \<noteq> 0" using Cons.prems(1) by linarith
  have 1: "process_vector k r (c # cs) st = Inr st'" using nz st' by simp
  have 2: "lookup0 (rrf_scores st') i = running_sum k r (map cid (c # cs)) i (lookup0 (rrf_scores st) i)" for i
    by (auto simp: sc vector_step_def lookup0_scores_add)
  have 3: "map fst (rrf_scores st') = map fst (rrf_scores st)
          @ filter (\<lambda>y. y \<notin> set (map fst (rrf_scores st))) (first_seen (map cid (c # cs)))"
    unfolding ks using keys_step [of "cid c" "map fst (rrf_scores st)" "map cid cs"]
    by (simp add: vector_step_def keys_scores_add)
  have 4: "map fst (chunk_data st') = map fst (chunk_data st)
          @ filter (\<lambda>y. y \<notin> set (map fst (chunk_data st))) (first_seen (map cid (c # cs)))"
    unfolding kd using keys_step [of "cid c" "map fst (chunk_data st)" "map cid cs"]
    by (simp add: vector_step_def keys_dict_set)
  show ?case using 1 2 3 4 ky by blast
qed

lemma keyed_bm25_step: "keyed (chunk_data st) \<Longrightarrow> keyed (chunk_data (bm25_step k r c st))"
  by (auto simp: keyed_def bm25_step_def dict_get_def split: option.splits)

lemma keys_bm25_step:
  "map fst (chunk_data (bm25_step k r c st)) =
     (if cid c \<in> set (map fst (chunk_data st)) then map fst (chunk_data st)
      else map fst (chunk_data st) @ [cid c])"
  by (simp add: bm25_step_def keys_dict_set split: option.splits)

lemma process_bm25_ok:
  "0 \<le> k \<Longrightarrow> keyed (chunk_data st) \<Longrightarrow>
   \<exists>st'. process_bm25 k r cs st = Inr st'
     \<and> (\<forall>i. lookup0 (rrf_scores st') i = running_sum k r (map cid cs) i (lookup0 (rrf_scores st) i))
     \<and> map fst (rrf_scores st') = map fst (rrf_scores st)
          @ filter (\<lambda>y. y \<notin> set (map fst (rrf_scores st))) (first_seen (map cid cs))
     \<and> map fst (chunk_data st') = map fst (chunk_data st)
          @ filter (\<lambda>y. y \<notin> set (map fst (chunk_data st))) (first_seen (map cid cs))
     \<and> keyed (chunk_data st')"
proof (induction cs arbitrary: r st)
  case Nil
  then show ?case by simp
next
  case (Cons c cs)
  let ?st = "bm25_step k r c st"
  have k1: "keyed (chunk_data ?st)"
    using Cons.prems(2) by (rule keyed_bm25_step)
  from Cons.IH [OF Cons.prems(1) k1, of "Suc r"] obtain st' where
    st': "process_bm25 k (Suc r) cs ?st = Inr st'"
    and sc: "\<And>i. lookup0 (rrf_scores st') i = running_sum k (Suc r) (map cid cs) i (lookup0 (rrf_scores ?st) i)"
    and ks: "map fst (rrf_scores st') = map fst (rrf_scores ?st)
          @ filter (\<lambda>y. y \<notin> set (map fst (rrf_scores ?st))) (first_seen (map cid cs))"
    and kd: "map fst (chunk_data st') = map fst (chunk_data ?st)
          @ filter (\<lambda>y. y \<notin> set (map fst (chunk_data ?st))) (first_seen (map cid cs))"
    and ky: "keyed (chunk_data st')"
    by blast
  have nz: "k + int r + 1 \<noteq> 0" using Cons.prems(1) by linarith
  have 1: "process_bm25 k r (c # cs) st = Inr st'" using nz st' by simp
  have 2: "lookup0 (rrf_scores st') i = running_sum k r (map cid (c # cs)) i (lookup0 (rrf_scores st) i)" for i
    by (auto simp: sc bm25_step_def lookup0_scores_add)
  have 3: "map fst (rrf_scores st') = map fst (rrf_scores st)
          @ filter (\<lambda>y. y \<notin> set (map fst (rrf_scores st))) (first_seen (map cid (c # cs)))"
    unfolding ks using keys_step [of "cid c" "map fst (rrf_scores st)" "map cid cs"]
    by (simp add: bm25_step_def keys_scores_add)
  have 4: "map fst (chunk_data st') = map fst (chunk_data st)
          @ filter (\<lambda>y. y \<notin> set (map fst (chunk_data st))) (first_seen (map cid (c # cs)))"
    unfolding kd keys_bm25_step using keys_step [of "cid c" "map fst (chunk_data st)" "map cid cs"]
    by simp
  show ?case using 1 2 3 4 ky by blast
qed

lemma build_results_ok:
  "keyed data \<Longrightarrow> set (map fst items) \<subseteq> set (map fst data) \<Longrightarrow>
   \<exists>out. build_results data items = Inr out
     \<and> map (\<lambda>c. (cid c, rrf_score c)) out = map (\<lambda>x. (fst x, Some (snd x))) items
     \<and> map score out = map rrf_score out"
proof (induction items)
  case Nil
  then show ?case by simp
next
  case (Cons x items)
  obtain i s where x: "x = (i, s)" by (cases x)
  from Cons obtain out where out: "build_results data items = Inr out"
    "map (\<lambda>c. (cid c, rrf_score c)) out = map (\<lambda>x. (fst x, Some (snd x))) items"
    "map score out = map rrf_score out"
    by auto
  from Cons.prems(2) x have "i \<in> fst ` set data" by simp
  then obtain c where c: "map_of data i = Some c"
    by (metis domD dom_map_of_conv_image_fst)
  with Cons.prems(1) have "cid c = i" by (simp add: keyed_def)
  with x c out show ?case by (simp add: dict_get_def)
qed

lemma lookup0_distinct:
  "distinct (map fst d) \<Longrightarrow> x \<in> set d \<Longrightarrow> snd x = lookup0 d (fst x)"
  by (cases x) (simp add: lookup0_def)

lemma sorted_ids_props:
  assumes d: "distinct (map fst items)"
  shows "set (sorted_ids items) = set items"
    and "sorted_wrt (\<lambda>a b. snd b \<le> snd a) (sorted_ids items)"
    and "filter (\<lambda>x. snd x = v) (sorted_ids items) = filter (\<lambda>x. snd x = v) items"
proof -
  show "set (sorted_ids items) = set items" by (simp add: sorted_ids_def)
  have "sorted (map (\<lambda>x. - snd x) (sorted_ids items))"
    unfolding sorted_ids_def by (rule sorted_sort_key)
  then show "sorted_wrt (\<lambda>a b. snd b \<le> snd a) (sorted_ids items)"
    by (simp add: sorted_wrt_map)
  have "filter (\<lambda>x. - snd x = - v) (sorted_ids items) = filter (\<lambda>x. - snd x = - v) items"
    unfolding sorted_ids_def by (rule sort_key_stable)
  then show "filter (\<lambda>x. snd x = v) (sorted_ids items) = filter (\<lambda>x. snd x = v) items"
    by simp
qed

lemma running_sum_distinct:
  "distinct ids \<Longrightarrow>
   running_sum k r ids i s =
     (if i \<in> set ids then float_add s (int_true_div 1 (k + int r + int (rank_in ids i))) else s)"
proof (induction ids arbitrary: r s)
  case Nil
  then show ?case by simp
next
  case (Cons x ids)
  have a: "k + (1 + int r) + int (rank_in ids i) = k + int r + (1 + int (rank_in ids i))" by simp
  from Cons show ?case by (auto simp: a)
qed


lemma exponent_below_eq:
  "2 powr (- real m) \<le> x \<Longrightarrow> x < 2 powr (1 - real m) \<Longrightarrow> m \<le> n
     \<Longrightarrow> exponent_below n x = - int m"
proof (induction n arbitrary: x m)
  case 0
  then show ?case by simp
next
  case (Suc n)
  show ?case
  proof (cases m)
    case 0
    with Suc.prems show ?thesis by simp
  next
    case (Suc m')
    have "x < 2 powr (- real m')" using Suc.prems(2) Suc by simp
    also have "\<dots> \<le> 2 powr 0" by (intro powr_mono) simp_all
    finally have x1: "x < 1" by simp
    have p: "2 * 2 powr (- real (Suc m')) = 2 powr (- real m')"
      "2 * 2 powr (1 - real (Suc m')) = 2 powr (1 - real m')"
      by (simp_all add: powr_diff powr_minus field_simps powr_add)
    have "2 powr (- real m') \<le> 2 * x" "2 * x < 2 powr (1 - real m')"
      using Suc.prems(1,2) unfolding Suc p [symmetric] by simp_all
    then have "exponent_below n (2 * x) = - int m'"
      using Suc.prems(3) Suc by (intro Suc.IH) simp_all
    with x1 Suc show ?thesis by simp
  qed
qed

lemma exponent_above_eq:
  "2 powr real m \<le> x \<Longrightarrow> x < 2 powr (real m + 1) \<Longrightarrow> m \<le> n
     \<Longrightarrow> exponent_above n x = int m"
proof (induction n arbitrary: x m)
  case 0
  then show ?case by simp
next
  case (Suc n)
  show ?case
  proof (cases m)
    case 0
    with Suc.prems show ?thesis by simp
  next
    case (Suc m')
    have "(2 :: real) = 2 powr 1" by simp
    also have "\<dots> \<le> 2 powr real m" unfolding Suc by (intro powr_mono) simp_all
    finally have x2: "\<not> x < 2" using Suc.prems(1) by simp
    have p: "2 powr real (Suc m') / 2 = 2 powr real m'"
      "2 powr (real (Suc m') + 1) / 2 = 2 powr (real m' + 1)"
      by (simp_all add: powr_add)
    have "2 powr real m' \<le> x / 2" "x / 2 < 2 powr (real m' + 1)"
      using Suc.prems(1,2) unfolding Suc p [symmetric] by (simp_all add: divide_right_mono)
    then have "exponent_above n (x / 2) = int m'"
      using Suc.prems(3) Suc by (intro Suc.IH) simp_all
    with x2 Suc show ?thesis by simp
  qed
qed

lemma exponent_eq:
  assumes "2 powr of_int e \<le> \<bar>x\<bar>" "\<bar>x\<bar> < 2 powr of_int (e + 1)" "- 1022 \<le> e" "e \<le> 1023"
  shows "exponent x = e"
proof (cases "e < 0")
  case True
  define m where "m = nat (- e)"
  have e: "e = - int m" using True by (simp add: m_def)
  have "\<bar>x\<bar> < 2 powr of_int (e + 1)" by (rule assms(2))
  also have "\<dots> \<le> 2 powr 0" using True by (intro powr_mono) simp_all
  finally have x1: "\<bar>x\<bar> < 1" by simp
  have "exponent_below 1022 \<bar>x\<bar> = - int m"
    using assms unfolding e by (intro exponent_below_eq) (simp_all add: algebra_simps)
  with x1 show ?thesis by (simp add: exponent_def e)
next
  case False
  define m where "m = nat e"
  have e: "e = int m" using False by (simp add: m_def)
  have "(1 :: real) = 2 powr 0" by simp
  also have "\<dots> \<le> 2 powr of_int e" using False by (intro powr_mono) simp_all
  finally have x1: "\<not> \<bar>x\<bar> < 1" using assms(1) by simp
  have "exponent_above 1023 \<bar>x\<bar> = int m"
    using assms unfolding e by (intro exponent_above_eq) (simp_all add: algebra_simps)
  with x1 show ?thesis by (simp add: exponent_def e)
qed

lemma round_binary64_at:
  assumes "2 powr of_int e \<le> \<bar>x\<bar>" "\<bar>x\<bar> < 2 powr of_int (e + 1)" "- 1022 \<le> e" "e \<le> 1023"
  shows "round_binary64 x = of_int (round_half_even (x * 2 powi (52 - e))) * 2 powi (e - 52)"
proof -
  have "0 < \<bar>x\<bar>" using assms(1) by (smt (verit) powr_gt_zero)
  with exponent_eq [OF assms] show ?thesis by (simp add: round_binary64_def Let_def)
qed

lemma reciprocals_binary64:
  "int_true_div 1 61 = 4725088133634619 / 2 ^ 58"
  "int_true_div 1 62 = 4648877034705028 / 2 ^ 58"
  "int_true_div 1 63 = 4575085335741456 / 2 ^ 58"
  unfolding int_true_div_def
  by (subst round_binary64_at [where e = "- 6"];
      simp add: round_half_even_def powr_neg_numeral power_int_minus)+

lemma float_add_zero_reciprocals:
  "float_add 0 (int_true_div 1 61) = int_true_div 1 61"
  "float_add 0 (int_true_div 1 62) = int_true_div 1 62"
  "float_add 0 (int_true_div 1 63) = int_true_div 1 63"
  unfolding reciprocals_binary64 unfolding float_add_def
  by (subst round_binary64_at [where e = "- 6"];
      simp add: round_half_even_def powr_neg_numeral power_int_minus)+

lemma sums_binary64:
  "float_add (int_true_div 1 61) (int_true_div 1 62) = 4686982584169824 / 2 ^ 57"
  "float_add (int_true_div 1 62) (int_true_div 1 61) = 4686982584169824 / 2 ^ 57"
  "float_add (int_true_div 1 63) (int_true_div 1 63) = 4575085335741456 / 2 ^ 57"
  unfolding reciprocals_binary64 unfolding float_add_def
  by (subst round_binary64_at [where e = "- 5"];
      simp add: round_half_even_def powr_neg_numeral power_int_minus)+

lemma running_sums_binary64:
  "float_add (float_add 0 (int_true_div 1 61)) (int_true_div 1 62) = 4686982584169824 / 2 ^ 57"
  "float_add (float_add 0 (int_true_div 1 62)) (int_true_div 1 61) = 4686982584169824 / 2 ^ 57"
  "float_add (float_add 0 (int_true_div 1 63)) (int_true_div 1 63) = 4575085335741456 / 2 ^ 57"
  by (simp_all only: float_add_zero_reciprocals sums_binary64)

text \<open>
  Two ids whose exact totals agree can get different floats: at the ranks 28
  and 12 the code computes less than at the ranks 39 and 6, although
  \<open>1/88 + 1/72 = 1/99 + 1/66\<close>; the id with the larger float comes first.
\<close>

lemma equal_totals_different_floats:
  "(1 / 88 + 1 / 72 :: real) = 1 / 99 + 1 / 66"
  "float_add (float_add 0 (int_true_div 1 88)) (int_true_div 1 72) = 7278544852315953 / 2 ^ 58"
  "float_add (float_add 0 (int_true_div 1 99)) (int_true_div 1 66) = 7278544852315954 / 2 ^ 58"
proof -
  show "(1 / 88 + 1 / 72 :: real) = 1 / 99 + 1 / 66" by simp
  have d: "int_true_div 1 88 = 6550690367084358 / 2 ^ 59" "int_true_div 1 72 = 8006399337547548 / 2 ^ 59"
    "int_true_div 1 99 = 5822835881852763 / 2 ^ 59" "int_true_div 1 66 = 8734253822779144 / 2 ^ 59"
    unfolding int_true_div_def
    by (subst round_binary64_at [where e = "- 7"];
        simp add: round_half_even_def powr_neg_numeral power_int_minus)+
  have z: "float_add 0 (6550690367084358 / 2 ^ 59) = 6550690367084358 / 2 ^ 59"
    "float_add 0 (5822835881852763 / 2 ^ 59) = 5822835881852763 / 2 ^ 59"
    unfolding float_add_def
    by (subst round_binary64_at [where e = "- 7"];
        simp add: round_half_even_def powr_neg_numeral power_int_minus)+
  show "float_add (float_add 0 (int_true_div 1 88)) (int_true_div 1 72) = 7278544852315953 / 2 ^ 58"
    unfolding d z unfolding float_add_def
    by (subst round_binary64_at [where e = "- 6"];
        simp add: round_half_even_def powr_neg_numeral power_int_minus)
  show "float_add (float_add 0 (int_true_div 1 99)) (int_true_div 1 66) = 7278544852315954 / 2 ^ 58"
    unfolding d z unfolding float_add_def
    by (subst round_binary64_at [where e = "- 6"];
        simp add: round_half_even_def powr_neg_numeral power_int_minus)
qed

lemma rrf_example:
  assumes "cid A \<noteq> cid B" "cid A \<noteq> cid C" "cid B \<noteq> cid C"
  shows "\<exists>out. reciprocal_rank_fusion [A, B, C] [B, A, C] 60 = Inr out
     \<and> map cid out = [cid A, cid B, cid C]
     \<and> map rrf_score out = [Some (4686982584169824 / 2 ^ 57), Some (4686982584169824 / 2 ^ 57),
                            Some (4575085335741456 / 2 ^ 57)]"
  using assms
  by (simp add: reciprocal_rank_fusion_def vector_step_def bm25_step_def scores_add_def
      dict_get_def sorted_ids_def running_sums_binary64)


lemma rrf_general:
  assumes k: "0 \<le> k"
  shows "\<exists>out. reciprocal_rank_fusion vs bs k = Inr out
     \<and> set (map cid out) = set (map cid vs) \<union> set (map cid bs)
     \<and> distinct (map cid out)
     \<and> (\<forall>c \<in> set out. rrf_score c = Some (rrf_value k (map cid vs) (map cid bs) (cid c))
                       \<and> score c = rrf_score c)
     \<and> sorted_wrt (\<lambda>a b. the (rrf_score b) \<le> the (rrf_score a)) out
     \<and> (\<forall>v. map cid (filter (\<lambda>c. rrf_score c = Some v) out)
            = filter (\<lambda>i. rrf_value k (map cid vs) (map cid bs) i = v)
                (first_seen (map cid vs @ map cid bs)))"
proof -
  let ?T = "rrf_value k (map cid vs) (map cid bs)"
  let ?st0 = "\<lparr>rrf_scores = [], chunk_data = []\<rparr>"
  let ?f = "\<lambda>c. (cid c, rrf_score c)"
  let ?g = "\<lambda>x :: int \<times> real. (fst x, Some (snd x))"
  have k0: "keyed (chunk_data ?st0)" by (simp add: keyed_def)
  from process_vector_ok [OF k k0, of 0 vs] obtain st1 where
    p1: "process_vector k 0 vs ?st0 = Inr st1"
    and s1: "\<And>i. lookup0 (rrf_scores st1) i = running_sum k 0 (map cid vs) i 0"
    and ks1: "map fst (rrf_scores st1) = first_seen (map cid vs)"
    and kd1: "map fst (chunk_data st1) = first_seen (map cid vs)"
    and ky1: "keyed (chunk_data st1)"
    by (auto simp: lookup0_def)
  from process_bm25_ok [OF k ky1, of 0 bs] obtain st2 where
    p2: "process_bm25 k 0 bs st1 = Inr st2"
    and s2: "\<And>i. lookup0 (rrf_scores st2) i = ?T i"
    and ks2: "map fst (rrf_scores st2) = first_seen (map cid vs @ map cid bs)"
    and kd2: "map fst (chunk_data st2) = first_seen (map cid vs @ map cid bs)"
    and ky2: "keyed (chunk_data st2)"
    by (auto simp: s1 ks1 kd1 first_seen_append rrf_value_def)
  let ?items = "rrf_scores st2"
  let ?sorted = "sorted_ids ?items"
  have di: "distinct (map fst ?items)" by (simp add: ks2)
  have set_keys: "set (map fst ?sorted) = set (map fst ?items)"
    unfolding set_map sorted_ids_props(1) [OF di] ..
  have sub: "set (map fst ?sorted) \<subseteq> set (map fst (chunk_data st2))"
    unfolding set_keys ks2 kd2 by simp
  from build_results_ok [OF ky2 sub] obtain out where
    b: "build_results (chunk_data st2) ?sorted = Inr out"
    and P: "map ?f out = map ?g ?sorted"
    and osc: "map score out = map rrf_score out"
    by blast
  have oc: "map cid out = map fst ?sorted"
  proof -
    have "map fst (map ?f out) = map fst (map ?g ?sorted)" by (simp only: P)
    then show ?thesis by (simp add: comp_def)
  qed
  have snd_T: "snd x = ?T (fst x)" if "x \<in> set ?items" for x
    using lookup0_distinct [OF di that] by (simp add: s2)
  have snd_T': "snd x = ?T (fst x)" if "x \<in> set ?sorted" for x
    using that snd_T by (simp add: sorted_ids_props(1) [OF di])
  have r: "reciprocal_rank_fusion vs bs k = Inr out"
    by (simp add: reciprocal_rank_fusion_def p1 p2 b)
  have set_out: "set (map cid out) = set (map cid vs) \<union> set (map cid bs)"
  proof -
    have "set (map cid out) = set (map fst ?items)"
      unfolding oc by (rule set_keys)
    then show ?thesis unfolding ks2 by simp
  qed
  have dist_out: "distinct (map cid out)"
  proof -
    from di have "distinct ?items" "inj_on fst (set ?items)"
      by (simp_all add: distinct_map)
    then have "distinct ?sorted" "inj_on fst (set ?sorted)"
      by (simp_all add: sorted_ids_def)
    then show ?thesis unfolding oc by (simp add: distinct_map)
  qed
  have sc_out: "\<forall>c \<in> set out. rrf_score c = Some (?T (cid c)) \<and> score c = rrf_score c"
  proof
    fix c assume c: "c \<in> set out"
    then have "?f c \<in> set (map ?g ?sorted)" unfolding P [symmetric] by simp
    then obtain x where x: "x \<in> set ?sorted" "cid c = fst x" "rrf_score c = Some (snd x)"
      by auto
    moreover have "score c = rrf_score c" using osc c by (simp add: map_eq_conv)
    ultimately show "rrf_score c = Some (?T (cid c)) \<and> score c = rrf_score c"
      using snd_T' [OF x(1)] by simp
  qed
  have sorted_out: "sorted_wrt (\<lambda>a b. the (rrf_score b) \<le> the (rrf_score a)) out"
  proof -
    have "sorted_wrt (\<lambda>a b. snd b \<le> snd a) ?sorted"
      by (rule sorted_ids_props(2) [OF di])
    then have "sorted_wrt (\<lambda>p q. the (snd q) \<le> the (snd p)) (map ?g ?sorted)"
      by (simp add: sorted_wrt_map)
    then have "sorted_wrt (\<lambda>p q. the (snd q) \<le> the (snd p)) (map ?f out)"
      by (simp only: P)
    then show ?thesis by (simp add: sorted_wrt_map)
  qed
  have ties: "map cid (filter (\<lambda>c. rrf_score c = Some v) out)
      = filter (\<lambda>i. ?T i = v) (first_seen (map cid vs @ map cid bs))" for v
  proof -
    have a: "filter (\<lambda>i. ?T i = v) (map fst xs) = map fst (filter (\<lambda>x. snd x = v) xs)"
      if "\<And>x. x \<in> set xs \<Longrightarrow> snd x = ?T (fst x)" for xs
      using that by (induction xs) auto
    have "map cid (filter (\<lambda>c. rrf_score c = Some v) out)
        = map fst (filter (\<lambda>p. snd p = Some v) (map ?f out))"
      by (simp add: filter_map comp_def)
    also have "\<dots> = map fst (filter (\<lambda>p. snd p = Some v) (map ?g ?sorted))"
      by (simp only: P)
    also have "\<dots> = map fst (filter (\<lambda>x. snd x = v) ?sorted)"
      by (simp add: filter_map comp_def)
    also have "\<dots> = map fst (filter (\<lambda>x. snd x = v) ?items)"
      by (simp only: sorted_ids_props(3) [OF di])
    also have "\<dots> = filter (\<lambda>i. ?T i = v) (map fst ?items)"
      by (rule a [symmetric]) (rule snd_T)
    finally show ?thesis unfolding ks2 .
  qed
  show ?thesis using r set_out dist_out sc_out sorted_out ties by blast
qed

lemma rrf_value_distinct:
  assumes "distinct vids" "distinct bids"
  shows "rrf_value k vids bids i =
     (let s = (if i \<in> set vids then float_add 0 (int_true_div 1 (k + int (rank_in vids i))) else 0)
      in if i \<in> set bids then float_add s (int_true_div 1 (k + int (rank_in bids i))) else s)"
  unfolding rrf_value_def running_sum_distinct [OF assms(1)] running_sum_distinct [OF assms(2)]
  by (simp add: Let_def)

text \<open>
  Claim C1. Reciprocal rank fusion with \<open>K = 60\<close> always returns; the ids of
  the output are the distinct ids of the two lists; each output chunk carries as
  \<open>rrf_score\<close> (and \<open>score\<close>) the float that the code accumulates for its
  id: starting from \<^verbatim>\<open>0.0\<close>, the float sum, over the positions of the id in
  the vector list and then in the BM25 list, of the float \<open>1 / (60 + rank)\<close>
  with 1-indexed rank, so a list that does not hold the id adds nothing. The
  output is descending by these computed scores, and the chunks that carry the
  same computed score are in the order of first encounter, vector list first.
  When no id is repeated inside a list, the score is \<open>0.0\<close> plus the
  reciprocal for the rank in the vector list, plus the reciprocal for the rank
  in the BM25 list, each only if the list holds the id. Fusing \<open>[A, B, C]\<close>
  with \<open>[B, A, C]\<close> gives the order \<open>[A, B, C]\<close> with the scores
  \<open>1/61 + 1/62\<close>, \<open>1/62 + 1/61\<close> and \<open>1/63 + 1/63\<close> in float
  arithmetic, the first two being the same float.
\<close>

theorem rrf_fusion:
  "(\<exists>out. reciprocal_rank_fusion vs bs 60 = Inr out
     \<and> set (map cid out) = set (map cid vs) \<union> set (map cid bs)
     \<and> distinct (map cid out)
     \<and> (\<forall>c \<in> set out. rrf_score c = Some (rrf_value 60 (map cid vs) (map cid bs) (cid c))
                       \<and> score c = rrf_score c)
     \<and> sorted_wrt (\<lambda>a b. the (rrf_score b) \<le> the (rrf_score a)) out
     \<and> (\<forall>v. map cid (filter (\<lambda>c. rrf_score c = Some v) out)
            = filter (\<lambda>i. rrf_value 60 (map cid vs) (map cid bs) i = v)
                (first_seen (map cid vs @ map cid bs))))
   \<and> (distinct (map cid vs) \<and> distinct (map cid bs) \<longrightarrow>
        rrf_value 60 (map cid vs) (map cid bs) i =
          (let s = (if i \<in> set (map cid vs)
                    then float_add 0 (int_true_div 1 (60 + int (rank_in (map cid vs) i))) else 0)
           in if i \<in> set (map cid bs)
              then float_add s (int_true_div 1 (60 + int (rank_in (map cid bs) i))) else s))
   \<and> (cid A \<noteq> cid B \<and> cid A \<noteq> cid C \<and> cid B \<noteq> cid C \<longrightarrow>
        (\<exists>out. reciprocal_rank_fusion [A, B, C] [B, A, C] 60 = Inr out
           \<and> map cid out = [cid A, cid B, cid C]
           \<and> map rrf_score out =
               [Some (float_add (int_true_div 1 61) (int_true_div 1 62)),
                Some (float_add (int_true_div 1 62) (int_true_div 1 61)),
                Some (float_add (int_true_div 1 63) (int_true_div 1 63))]
           \<and> float_add (int_true_div 1 61) (int_true_div 1 62)
               = float_add (int_true_div 1 62) (int_true_div 1 61)))"
proof (intro conjI impI)
  show "\<exists>out. reciprocal_rank_fusion vs bs 60 = Inr out
     \<and> set (map cid out) = set (map cid vs) \<union> set (map cid bs)
     \<and> distinct (map cid out)
     \<and> (\<forall>c \<in> set out. rrf_score c = Some (rrf_value 60 (map cid vs) (map cid bs) (cid c))
                       \<and> score c = rrf_score c)
     \<and> sorted_wrt (\<lambda>a b. the (rrf_score b) \<le> the (rrf_score a)) out
     \<and> (\<forall>v. map cid (filter (\<lambda>c. rrf_score c = Some v) out)
            = filter (\<lambda>i. rrf_value 60 (map cid vs) (map cid bs) i = v)
                (first_seen (map cid vs @ map cid bs)))"
    by (rule rrf_general) simp
next
  assume "distinct (map cid vs) \<and> distinct (map cid bs)"
  then show "rrf_value 60 (map cid vs) (map cid bs) i =
          (let s = (if i \<in> set (map cid vs)
                    then float_add 0 (int_true_div 1 (60 + int (rank_in (map cid vs) i))) else 0)
           in if i \<in> set (map cid bs)
              then float_add s (int_true_div 1 (60 + int (rank_in (map cid bs) i))) else s)"
    by (intro rrf_value_distinct) simp_all
next
  assume "cid A \<noteq> cid B \<and> cid A \<noteq> cid C \<and> cid B \<noteq> cid C"
  then have "\<exists>out. reciprocal_rank_fusion [A, B, C] [B, A, C] 60 = Inr out
     \<and> map cid out = [cid A, cid B, cid C]
     \<and> map rrf_score out = [Some (4686982584169824 / 2 ^ 57), Some (4686982584169824 / 2 ^ 57),
                            Some (4575085335741456 / 2 ^ 57)]"
    by (intro rrf_example) simp_all
  then show "\<exists>out. reciprocal_rank_fusion [A, B, C] [B, A, C] 60 = Inr out
           \<and> map cid out = [cid A, cid B, cid C]
           \<and> map rrf_score out =
               [Some (float_add (int_true_div 1 61) (int_true_div 1 62)),
                Some (float_add (int_true_div 1 62) (int_true_div 1 61)),
                Some (float_add (int_true_div 1 63) (int_true_div 1 63))]
           \<and> float_add (int_true_div 1 61) (int_true_div 1 62)
               = float_add (int_true_div 1 62) (int_true_div 1 61)"
    unfolding sums_binary64 by simp
qed

theorem rrf_fusion_witness:
  "\<exists>out. reciprocal_rank_fusion [plain_chunk 1, plain_chunk 2, plain_chunk 3]
           [plain_chunk 2, plain_chunk 1, plain_chunk 3] 60 = Inr out
     \<and> map cid out = [1, 2, 3]
     \<and> map rrf_score out = [Some (4686982584169824 / 2 ^ 57), Some (4686982584169824 / 2 ^ 57),
                            Some (4575085335741456 / 2 ^ 57)]"
proof -
  have d: "cid (plain_chunk 1) \<noteq> cid (plain_chunk 2) \<and> cid (plain_chunk 1) \<noteq> cid (plain_chunk 3)
     \<and> cid (plain_chunk 2) \<noteq> cid (plain_chunk 3)"
    by (simp add: plain_chunk_def)
  have c: "cid (plain_chunk 1) = 1" "cid (plain_chunk 2) = 2" "cid (plain_chunk 3) = 3"
    by (simp_all add: plain_chunk_def)
  from rrf_fusion [of "[]" "[]" 0 "plain_chunk 1" "plain_chunk 2" "plain_chunk 3",
      THEN conjunct2, THEN conjunct2, rule_format, OF d]
  obtain out where
    "reciprocal_rank_fusion [plain_chunk 1, plain_chunk 2, plain_chunk 3]
           [plain_chunk 2, plain_chunk 1, plain_chunk 3] 60 = Inr out"
    "map cid out = [cid (plain_chunk 1), cid (plain_chunk 2), cid (plain_chunk 3)]"
    "map rrf_score out =
               [Some (float_add (int_true_div 1 61) (int_true_div 1 62)),
                Some (float_add (int_true_div 1 62) (int_true_div 1 61)),
                Some (float_add (int_true_div 1 63) (int_true_div 1 63))]"
    by (elim exE conjE)
  then have "\<exists>out. reciprocal_rank_fusion [plain_chunk 1, plain_chunk 2, plain_chunk 3]
           [plain_chunk 2, plain_chunk 1, plain_chunk 3] 60 = Inr out
     \<and> map cid out = [cid (plain_chunk 1), cid (plain_chunk 2), cid (plain_chunk 3)]
     \<and> map rrf_score out =
               [Some (float_add (int_true_div 1 61) (int_true_div 1 62)),
                Some (float_add (int_true_div 1 62) (int_true_div 1 61)),
                Some (float_add (int_true_div 1 63) (int_true_div 1 63))]"
    by (intro exI conjI)
  then show ?thesis unfolding c sums_binary64 .
qed

subsection \<open>Cosine similarity\<close>

lemma dot_self: "(\<Sum>(a, b)\<leftarrow>zip v v. a * b) = (\<Sum>a\<leftarrow>v. a * (a::real))"
  by (induction v) simp_all

lemma cosine_similarity_bounds:
  "0 \<le> cosine_similarity u v \<and> cosine_similarity u v \<le> 1"
  by (simp add: cosine_similarity_def Let_def)

lemma cosine_similarity_self:
  assumes "sqrt (\<Sum>a\<leftarrow>v. a * a) \<noteq> 0"
  shows "cosine_similarity v v = 1"
proof -
  let ?S = "\<Sum>a\<leftarrow>v. a * a"
  have nn: "0 \<le> ?S" by (induction v) simp_all
  from assms have nz: "?S \<noteq> 0" by auto
  have "sqrt ?S * sqrt ?S = ?S" using nn by simp
  then show ?thesis using assms nz
    by (simp add: cosine_similarity_def Let_def dot_self)
qed

lemma cosine_similarity_zero:
  "sqrt (\<Sum>a\<leftarrow>u. a * a) = 0 \<or> sqrt (\<Sum>b\<leftarrow>v. b * b) = 0 \<Longrightarrow> cosine_similarity u v = 0"
  by (auto simp: cosine_similarity_def Let_def)

lemma cosine_similarity_np_zero:
  "length u = length v \<Longrightarrow> sqrt (\<Sum>a\<leftarrow>u. a * a) = 0 \<or> sqrt (\<Sum>b\<leftarrow>v. b * b) = 0
   \<Longrightarrow> cosine_similarity_np u v = Inr 0"
  by (auto simp: cosine_similarity_np_def Let_def)

lemma cosine_similarity_np_self:
  assumes "sqrt (\<Sum>a\<leftarrow>v. a * a) \<noteq> 0"
  shows "cosine_similarity_np v v = Inr 1"
proof -
  let ?S = "\<Sum>a\<leftarrow>v. a * a"
  have nn: "0 \<le> ?S" by (induction v) simp_all
  from assms have nz: "?S \<noteq> 0" by auto
  have "sqrt ?S * sqrt ?S = ?S" using nn by simp
  then show ?thesis using assms nz
    by (simp add: cosine_similarity_np_def Let_def dot_self)
qed

text \<open>
  Claim C2. Both cosine functions should return a value in \<open>[0, 1]\<close>, 1 for a
  non-zero vector with itself and 0 when a magnitude is 0. The clamped function
  of the hybrid search does (the three lemmas above); the MMR function returns
  the quotient unclamped, and two opposite vectors give \<open>- 1\<close>.
\<close>

theorem cosine_similarity_np_negative:
  "cosine_similarity_np [1] [- 1] = Inr (- 1) \<and> cosine_similarity [1] [- 1] = 0"
  by (simp add: cosine_similarity_np_def cosine_similarity_def)

subsection \<open>BM25 normalisation\<close>

lemma py_max_Max:
  assumes "raw \<noteq> []"
  shows "py_max raw = Inr (Max (set raw))"
proof (cases raw)
  case Nil
  with assms show ?thesis by simp
next
  case (Cons x xs)
  have "fold max xs x = Max (set (x # xs))" by (rule Max.set_eq_fold [symmetric])
  with Cons show ?thesis by simp
qed

lemma normalize_scores_nonneg:
  assumes ne: "raw \<noteq> []" and nn: "\<forall>s \<in> set raw. 0 \<le> s"
  shows "\<exists>ns. normalize_scores raw = Inr ns
     \<and> ns = map (\<lambda>s. s / (if Max (set raw) = 0 then 1 else Max (set raw))) raw
     \<and> (\<forall>x \<in> set ns. 0 \<le> x \<and> x \<le> 1)
     \<and> (Max (set raw) \<noteq> 0 \<longrightarrow> (\<forall>i < length raw. raw ! i = Max (set raw) \<longrightarrow> ns ! i = 1))
     \<and> ((\<forall>s \<in> set raw. s = 0) \<longrightarrow> (\<forall>x \<in> set ns. x = 0))"
proof -
  let ?m = "Max (set raw)"
  have m_in: "?m \<in> set raw" using ne by simp
  have m_ge: "s \<le> ?m" if "s \<in> set raw" for s using that by simp
  have m0: "0 \<le> ?m" using m_in nn by blast
  let ?d = "if ?m = 0 then 1 else ?m"
  have d: "(if ?m > 0 then ?m else 1) = ?d" using m0 by auto
  have dpos: "0 < ?d" using m0 by auto
  let ?ns = "map (\<lambda>s. s / ?d) raw"
  have 1: "normalize_scores raw = Inr ?ns"
    by (simp add: normalize_scores_def py_max_Max [OF ne] d)
  have 2: "\<forall>x \<in> set ?ns. 0 \<le> x \<and> x \<le> 1"
  proof
    fix x assume "x \<in> set ?ns"
    then obtain s where s: "s \<in> set raw" "x = s / ?d" by auto
    have "0 \<le> s" using s nn by blast
    moreover have "s \<le> ?d" using m_ge [OF s(1)] m0 by auto
    ultimately show "0 \<le> x \<and> x \<le> 1" using dpos s(2) by simp
  qed
  have 3: "?m \<noteq> 0 \<longrightarrow> (\<forall>i < length raw. raw ! i = ?m \<longrightarrow> ?ns ! i = 1)"
    by simp
  have 4: "(\<forall>s \<in> set raw. s = 0) \<longrightarrow> (\<forall>x \<in> set ?ns. x = 0)"
    by auto
  show ?thesis using 1 2 3 4 by blast
qed

text \<open>
  On a non-empty batch whose raw scores are all non-negative the normalisation
  does what its comment \<^verbatim>\<open># Normalize scores to 0-1 range\<close> says: the scores
  are divided by the maximum (by 1 when the maximum is 0), lie in \<open>[0, 1]\<close>, a
  chunk with the maximum raw score gets exactly 1 when that maximum is not 0,
  and all are 0 when every raw score is 0.
\<close>

lemma bm25_normalization_nonneg:
  assumes "chunks \<noteq> []"
    and "bm25 (map (\<lambda>chunk. py_split (py_lower (chunk_text chunk))) chunks)
           (py_split (py_lower query)) = Inr raw"
    and "length raw = length chunks"
    and "\<forall>s \<in> set raw. 0 \<le> s"
  shows "\<exists>ns. compute_bm25_scores bm25 query chunks = Inr ns
     \<and> ns = map (\<lambda>s. s / (if Max (set raw) = 0 then 1 else Max (set raw))) raw
     \<and> (\<forall>x \<in> set ns. 0 \<le> x \<and> x \<le> 1)
     \<and> (Max (set raw) \<noteq> 0 \<longrightarrow> (\<forall>i < length raw. raw ! i = Max (set raw) \<longrightarrow> ns ! i = 1))
     \<and> ((\<forall>s \<in> set raw. s = 0) \<longrightarrow> (\<forall>x \<in> set ns. x = 0))"
proof -
  from assms(1,3) have "raw \<noteq> []" by auto
  from normalize_scores_nonneg [OF this assms(4)] show ?thesis
    by (simp add: compute_bm25_scores_def assms(2))
qed

text \<open>
  Claim C7. Every normalised BM25 score of a non-empty batch should lie in
  \<open>[0, 1]\<close>, with 1 for the maximum. The code divides by the maximum only when
  it is positive and never clamps: for the query \<^verbatim>\<open>a\<close> on the single chunk
  \<^verbatim>\<open>a\<close>, where \<^verbatim>\<open>BM25Okapi\<close> scores the chunk \<open>- 0.2747\<close>, the function
  returns \<open>- 0.2747\<close>, and raw scores 2 and \<open>- 1\<close> are normalised to 1 and
  \<open>- 1/2\<close>.
\<close>

theorem bm25_normalization_negative:
  "compute_bm25_scores
      (\<lambda>corpus q. if corpus = [[''a'']] \<and> q = [''a''] then Inr [- 0.2747] else Inl ExternalError)
      ''a'' [plain_chunk 1\<lparr>chunk_text := ''a''\<rparr>] = Inr [- 0.2747]
   \<and> \<not> (0 \<le> (- 0.2747 :: real))
   \<and> normalize_scores [2, - 1] = Inr [1, - 1 / 2]"
  by (simp add: compute_bm25_scores_def normalize_scores_def plain_chunk_def py_split_def
      py_lower_def lower_char_def is_space_def)

subsection \<open>Reranker fallback\<close>

text \<open>
  Claim C6. If the cross-encoder cannot be loaded, or its call raises, then
  \<open>rerank_chunks\<close> returns \<^verbatim>\<open>chunks[:top_k]\<close> of the input list, which for
  \<open>top_k \<ge> 0\<close> is its first \<open>top_k\<close> chunks in their order, untouched; no
  error leaves the function. Ten candidates and \<open>top_k = 6\<close> give the first six.
\<close>

theorem rerank_fallback:
  "(get_reranker = Inl e
     \<or> (get_reranker = Inr predict
          \<and> predict (map (\<lambda>chunk. (query, chunk_text chunk)) chunks) = Inl e)) \<longrightarrow>
   rerank_chunks get_reranker query chunks top_k = py_slice_to chunks top_k
   \<and> (0 \<le> top_k \<longrightarrow> rerank_chunks get_reranker query chunks top_k = take (nat top_k) chunks)
   \<and> (length chunks = 10 \<and> top_k = 6 \<longrightarrow>
        rerank_chunks get_reranker query chunks top_k = take 6 chunks)"
  by (auto simp: rerank_chunks_def py_slice_to_def)

theorem rerank_fallback_witness:
  "rerank_chunks (Inl ExternalError) ''q''
      [plain_chunk 1, plain_chunk 2, plain_chunk 3, plain_chunk 4, plain_chunk 5,
       plain_chunk 6, plain_chunk 7, plain_chunk 8, plain_chunk 9, plain_chunk 10] 6
   = [plain_chunk 1, plain_chunk 2, plain_chunk 3, plain_chunk 4, plain_chunk 5, plain_chunk 6]"
  using rerank_fallback [of "Inl ExternalError" ExternalError undefined "''q''"
      "[plain_chunk 1, plain_chunk 2, plain_chunk 3, plain_chunk 4, plain_chunk 5,
       plain_chunk 6, plain_chunk 7, plain_chunk 8, plain_chunk 9, plain_chunk 10]" 6]
  by (simp add: py_slice_to_def)

subsection \<open>MMR: candidates without embedding\<close>

lemma candidate_score_no_embedding:
  "no_embedding c \<Longrightarrow> candidate_score q lam sel c = Inr (score_or_zero c)"
  by (auto simp: no_embedding_def candidate_score_def)

lemma mmr_scores_of_nth:
  "mmr_scores_of q lam sel rem = Inr xs \<Longrightarrow>
     length xs = length rem \<and> (\<forall>j < length rem. candidate_score q lam sel (rem ! j) = Inr (xs ! j))"
proof (induction rem arbitrary: xs)
  case Nil
  then show ?case by simp
next
  case (Cons c rem)
  from Cons.prems obtain x xs' where
    x: "candidate_score q lam sel c = Inr x"
    and xs': "mmr_scores_of q lam sel rem = Inr xs'"
    and xs: "xs = x # xs'"
    by (auto split: sum.splits)
  from Cons.IH [OF xs'] x xs show ?case
    by (auto simp: nth_Cons split: nat.splits)
qed

lemma no_embedding_mmr_score [simp]:
  "no_embedding (c\<lparr>mmr_score := v\<rparr>) = no_embedding c"
  by (simp add: no_embedding_def)

lemma score_or_zero_mmr_score [simp]:
  "score_or_zero (c\<lparr>mmr_score := v\<rparr>) = score_or_zero c"
  by (simp add: score_or_zero_def)

lemma mmr_loop_fallback_recorded:
  "mmr_loop q lam top_k sel rem = r \<Longrightarrow> fallback_recorded sel \<Longrightarrow>
     (case r of Inl (e, out) \<Rightarrow> fallback_recorded out | Inr out \<Rightarrow> fallback_recorded out)"
proof (induction q lam top_k sel rem arbitrary: r rule: mmr_loop.induct)
  case (1 q lam top_k selected remaining)
  show ?case
  proof (cases "int (length selected) < top_k \<and> remaining \<noteq> []")
    case False
    with "1.prems" show ?thesis by auto
  next
    case True
    show ?thesis
    proof (cases "mmr_scores_of q lam (map snd selected) (map snd remaining)")
      case (Inl e)
      with True "1.prems" show ?thesis by auto
    next
      case (Inr scores)
      let ?b = "np_argmax scores"
      show ?thesis
      proof (cases "?b < length remaining \<and> ?b < length scores")
        case False
        with True Inr "1.prems" show ?thesis by (auto simp: Let_def)
      next
        case b: True
        let ?c = "snd (remaining ! ?b)\<lparr>mmr_score := Some (scores ! ?b)\<rparr>"
        let ?sel = "selected @ [(fst (remaining ! ?b), ?c)]"
        have r: "mmr_loop q lam top_k ?sel (pop remaining ?b) = r"
          using "1.prems"(1) True Inr b by (simp add: Let_def)
        from mmr_scores_of_nth [OF Inr] b
        have cs: "candidate_score q lam (map snd selected) (snd (remaining ! ?b)) = Inr (scores ! ?b)"
          by auto
        have "no_embedding (snd (remaining ! ?b)) \<longrightarrow> scores ! ?b = score_or_zero (snd (remaining ! ?b))"
          using cs candidate_score_no_embedding by fastforce
        then have "fallback_recorded ?sel"
          using "1.prems"(2) by (simp add: fallback_recorded_def)
        from "1.IH" [OF True Inr refl b refl r this] show ?thesis .
      qed
    qed
  qed
qed

text \<open>
  Claim C8, amended. During MMR selection a candidate without an embedding
  (missing, \<^verbatim>\<open>None\<close> or empty) receives as its score of the iteration its
  prior \<open>score\<close> itself (0 when it has none), whatever \<open>\<lambda>\<close> and the chunks
  selected so far: the value is neither multiplied by \<open>\<lambda>\<close> nor reduced by a
  similarity term; and when the loop ends normally every selected chunk without
  embedding carries that value as its \<open>mmr_score\<close>.
\<close>

theorem mmr_missing_embedding:
  "(no_embedding chunk \<longrightarrow>
      candidate_score query_embedding lambda_param selected chunk = Inr (score_or_zero chunk))
   \<and> (mmr_loop query_embedding lambda_param top_k [] (zip [0..<length chunks] chunks) = Inr sel \<longrightarrow>
        (\<forall>c \<in> set (map snd sel). no_embedding c \<longrightarrow> mmr_score c = Some (score_or_zero c)))"
proof (intro conjI impI)
  assume "no_embedding chunk"
  then show "candidate_score query_embedding lambda_param selected chunk = Inr (score_or_zero chunk)"
    by (rule candidate_score_no_embedding)
next
  assume "mmr_loop query_embedding lambda_param top_k [] (zip [0..<length chunks] chunks) = Inr sel"
  from mmr_loop_fallback_recorded [OF this] have "fallback_recorded sel"
    by (simp add: fallback_recorded_def)
  then show "\<forall>c \<in> set (map snd sel). no_embedding c \<longrightarrow> mmr_score c = Some (score_or_zero c)"
    by (auto simp: fallback_recorded_def list_all_iff)
qed

lemmas mmr_eval = mmr_diversify_def candidate_score_def score_or_zero_def plain_chunk_def
  cosine_similarity_np_def pop_def py_slice_to_def chunks_after_def no_embedding_def

theorem mmr_missing_embedding_witness:
  "candidate_score [1] 0.7 [] (plain_chunk 1\<lparr>score := Some 0.9\<rparr>) = Inr 0.9
   \<and> mmr_score (plain_chunk 3\<lparr>score := Some 0.8, mmr_score := Some 0.8\<rparr>)
       = Some (score_or_zero (plain_chunk 3\<lparr>score := Some 0.8, mmr_score := Some 0.8\<rparr>))"
proof -
  let ?cs = "[plain_chunk 1\<lparr>score := Some 0.5\<rparr>, plain_chunk 2\<lparr>embedding := Some [1]\<rparr>,
              plain_chunk 3\<lparr>score := Some 0.8\<rparr>]"
  let ?c3 = "plain_chunk 3\<lparr>score := Some 0.8, mmr_score := Some 0.8\<rparr>"
  have run: "mmr_loop [1] 0.7 1 [] (zip [0..<length ?cs] ?cs) = Inr [(2, ?c3)]"
    by (simp add: mmr_eval upt_rec)
  have ne: "no_embedding (plain_chunk 1\<lparr>score := Some 0.9\<rparr>)" "no_embedding ?c3"
    by (simp_all add: no_embedding_def plain_chunk_def)
  from mmr_missing_embedding [of "plain_chunk 1\<lparr>score := Some 0.9\<rparr>" "[1]" "0.7" "[]" 1 ?cs "[(2, ?c3)]"]
    run ne
  have "candidate_score [1] 0.7 [] (plain_chunk 1\<lparr>score := Some 0.9\<rparr>)
          = Inr (score_or_zero (plain_chunk 1\<lparr>score := Some 0.9\<rparr>))
        \<and> mmr_score ?c3 = Some (score_or_zero ?c3)"
    by simp
  then show ?thesis by (simp add: score_or_zero_def plain_chunk_def)
qed

text \<open>
  Claim C8 as stated fails: with \<open>\<lambda> = 0.7\<close> a candidate of prior score 0.9
  and no embedding is scored 0.9, not \<open>0.7 \<cdot> 0.9\<close>, and it is therefore selected
  before a candidate whose embedding equals the query (scored 0.7).
\<close>

theorem mmr_missing_embedding_counterexample:
  "candidate_score [1] 0.7 [] (plain_chunk 1\<lparr>score := Some 0.9\<rparr>) = Inr 0.9
   \<and> (0.9 :: real) \<noteq> 0.7 * 0.9 - (1 - 0.7) * 0
   \<and> mmr_diversify [plain_chunk 2\<lparr>embedding := Some [1]\<rparr>, plain_chunk 1\<lparr>score := Some 0.9\<rparr>]
        [1] 1 0.7 = [plain_chunk 1\<lparr>score := Some 0.9, mmr_score := Some 0.9\<rparr>]"
  by (simp add: mmr_eval)

text \<open>
  Once a chunk without embedding is selected, scoring a remaining chunk that
  has one compares its embedding with the empty vector; \<^verbatim>\<open>np.dot\<close> raises
  and the function returns the first \<open>top_k\<close> chunks of the input.
\<close>

lemma mmr_selected_without_embedding_aborts:
  "mmr_diversify [plain_chunk 1\<lparr>score := Some 0.9\<rparr>, plain_chunk 2\<lparr>embedding := Some [1]\<rparr>,
       plain_chunk 3\<lparr>embedding := Some [1]\<rparr>] [1] 2 0.7
   = [plain_chunk 1\<lparr>score := Some 0.9, mmr_score := Some 0.9\<rparr>, plain_chunk 2\<lparr>embedding := Some [1]\<rparr>]"
  by (simp add: mmr_eval)

subsection \<open>Response cache: eviction, lookup, expiry\<close>

lemma map_of_dict_del_other: "k' \<noteq> k \<Longrightarrow> map_of (dict_del d k) k' = map_of d k'"
  by (induction d k rule: dict_del.induct) auto

lemma map_of_dict_del_same: "distinct (map fst d) \<Longrightarrow> map_of (dict_del d k) k = None"
  by (induction d k rule: dict_del.induct) (auto simp: map_of_eq_None_iff)

lemma keys_dict_del: "map fst (dict_del d k) = remove1 k (map fst d)"
  by (induction d k rule: dict_del.induct) auto

lemma distinct_dict_del: "distinct (map fst d) \<Longrightarrow> distinct (map fst (dict_del d k))"
  by (simp add: keys_dict_del)

lemma distinct_dict_set: "distinct (map fst d) \<Longrightarrow> distinct (map fst (dict_set d k v))"
  by (simp add: keys_dict_set)

lemma length_dict_set: "length (dict_set d k v) = (if k \<in> set (map fst d) then length d else Suc (length d))"
  by (induction d k v rule: dict_set.induct) auto

lemma dict_set_fresh: "k \<notin> set (map fst d) \<Longrightarrow> dict_set d k v = d @ [(k, v)]"
  by (induction d k v rule: dict_set.induct) auto

lemma dict_del_hd: "dict_del ((k, v) # d) k = d"
  by simp

lemma length_dict_del: "length (dict_del d k) \<le> length d"
  by (induction d k rule: dict_del.induct) auto

lemma cache_get_hit_unchanged:
  "cache_get digest c now q d k = (Some r, c') \<Longrightarrow> c' = c"
  by (auto simp: cache_get_def Let_def split: option.splits if_splits)

lemma cache_set_full:
  assumes d: "distinct (map fst (cache c))"
    and full: "int (length (cache c)) = max_size c"
    and pos: "0 < max_size c"
  shows "\<exists>oldest rest c'. cache c = oldest # rest
      \<and> cache_set digest c now q ds k r = Inr c'
      \<and> cache c' = dict_set rest (generate_cache_key digest q ds k) \<lparr>response = r, cached_at = now\<rparr>
      \<and> (generate_cache_key digest q ds k \<notin> set (map fst rest) \<longrightarrow>
            cache c' = rest @ [(generate_cache_key digest q ds k, \<lparr>response = r, cached_at = now\<rparr>)])
      \<and> int (length (cache c')) \<le> max_size c' \<and> max_size c' = max_size c \<and> ttl_hours c' = ttl_hours c"
proof -
  from full pos obtain oldest rest where c: "cache c = oldest # rest"
    by (cases "cache c") auto
  obtain ok ov where o: "oldest = (ok, ov)" by (cases oldest)
  let ?key = "generate_cache_key digest q ds k"
  let ?e = "\<lparr>response = r, cached_at = now\<rparr>"
  let ?c' = "c\<lparr>cache := dict_set rest ?key ?e\<rparr>"
  have s: "cache_set digest c now q ds k r = Inr ?c'"
    using full c o by (simp add: cache_set_def Let_def)
  have len: "int (length (cache ?c')) \<le> max_size ?c'"
    using full c by (simp add: length_dict_set)
  show ?thesis using c s len by (auto simp: dict_set_fresh)
qed

lemma cache_set_size:
  assumes "int (length (cache c)) \<le> max_size c"
    and "cache_set digest c now q ds k r = Inr c'"
  shows "int (length (cache c')) \<le> max_size c' \<and> max_size c' = max_size c \<and> ttl_hours c' = ttl_hours c"
proof (cases "int (length (cache c)) \<ge> max_size c")
  case True
  with assms obtain ok ov rest where c: "cache c = (ok, ov) # rest"
    by (cases "cache c") (auto simp: cache_set_def Let_def)
  with True assms show ?thesis
    by (auto simp: cache_set_def Let_def length_dict_set)
next
  case False
  with assms show ?thesis
    by (auto simp: cache_set_def Let_def length_dict_set)
qed

lemma cache_set_distinct:
  assumes "distinct (map fst (cache c))"
    and "cache_set digest c now q ds k r = Inr c'"
  shows "distinct (map fst (cache c'))"
  using assms
  by (auto simp: cache_set_def Let_def distinct_dict_set distinct_dict_del
      split: if_splits list.splits intro!: distinct_dict_set)

lemma cache_set_present:
  assumes "cache_set digest c now q ds k r = Inr c'"
  shows "dict_get (cache c') (generate_cache_key digest q ds k) = Some \<lparr>response = r, cached_at = now\<rparr>"
  using assms
  by (auto simp: cache_set_def Let_def dict_get_def split: if_splits list.splits)

lemma cache_get_shrinks:
  "cache_get digest c now q ds k = (x, c') \<Longrightarrow>
     length (cache c') \<le> length (cache c) \<and> max_size c' = max_size c \<and> ttl_hours c' = ttl_hours c"
  by (auto simp: cache_get_def Let_def length_dict_del split: option.splits if_splits)

lemma run_ops_size:
  "int (length (cache c)) \<le> max_size c \<Longrightarrow>
     int (length (cache (run_ops digest c ops))) \<le> max_size c
     \<and> max_size (run_ops digest c ops) = max_size c"
proof (induction ops arbitrary: c)
  case Nil
  then show ?case by simp
next
  case (Cons op ops)
  show ?case
  proof (cases op)
    case (GetOp now q ds k)
    obtain x c' where g: "cache_get digest c now q ds k = (x, c')" by (cases "cache_get digest c now q ds k")
    from cache_get_shrinks [OF g] Cons.prems have "int (length (cache c')) \<le> max_size c'" "max_size c' = max_size c"
      by auto
    with Cons.IH [of c'] GetOp g show ?thesis by simp
  next
    case (SetOp now q ds k r)
    show ?thesis
    proof (cases "cache_set digest c now q ds k r")
      case (Inl e)
      with SetOp Cons show ?thesis by simp
    next
      case (Inr c')
      from cache_set_size [OF Cons.prems Inr] Cons.IH [of c'] SetOp Inr show ?thesis by simp
    qed
  qed
qed

lemma dict_del_filter:
  "distinct (map fst d) \<Longrightarrow> dict_del d k = filter (\<lambda>x. fst x \<noteq> k) d"
proof (induction d k rule: dict_del.induct)
  case (1 k)
  then show ?case by simp
next
  case (2 k' v' d k)
  then have "filter (\<lambda>x. fst x \<noteq> k') d = d"
    by (intro filter_True) force
  with 2 show ?case by auto
qed

lemma dict_set_present:
  "distinct (map fst d) \<Longrightarrow> k \<in> set (map fst d)
     \<Longrightarrow> dict_set d k v = map (\<lambda>x. if fst x = k then (k, v) else x) d"
proof (induction d k v rule: dict_set.induct)
  case (1 k v)
  then show ?case by simp
next
  case (2 k' v' d k v)
  show ?case
  proof (cases "k' = k")
    case True
    with 2 have "map (\<lambda>x. if fst x = k then (k, v) else x) d = d"
      by (intro map_idI) force
    with True show ?thesis by simp
  next
    case False
    with 2 show ?thesis by auto
  qed
qed

lemma arg_min_list_last:
  "s \<noteq> [] \<Longrightarrow> sorted_wrt (\<lambda>x y. f y < f x) s \<Longrightarrow> arg_min_list f s = last s"
proof (induction f s rule: arg_min_list.induct)
  case (1 f x)
  then show ?case by simp
next
  case (2 f x y zs)
  then have m: "arg_min_list f (y # zs) = last (y # zs)" by simp
  have "last (y # zs) \<in> set (y # zs)" by (rule last_in_set) simp
  with 2 have "f (last (y # zs)) < f x" by auto
  then have n: "\<not> f x \<le> f (arg_min_list f (y # zs))" by (simp only: m not_le)
  have "arg_min_list f (x # y # zs) = arg_min_list f (y # zs)"
    using n by (simp only: arg_min_list.simps Let_def if_False)
  also have "\<dots> = last (y # zs)" by (rule m)
  also have "\<dots> = last (x # y # zs)" by simp
  finally show ?case .
next
  case (3 a)
  then show ?case by simp
qed

lemma map_of_find:
  "map_of (map item_of s) key = map_option sentry (find (\<lambda>x. skey x = key) s)"
  by (induction s) (auto simp: item_of_def)

lemma map_of_rev_distinct:
  "distinct (map fst d) \<Longrightarrow> map_of (rev d) = map_of d"
  by (metis distinct_rev map_of_inject_set rev_map set_rev)


lemma strict_desc_props:
  assumes "sorted_wrt (\<lambda>x y. f y < f x) s"
  shows "distinct (map f s)" "inj_on f (set s)" "distinct s" "sorted (map f (rev s))"
proof -
  from assms have "sorted_wrt (\<lambda>x y. f x < f y) (rev s)"
    by (simp add: sorted_wrt_rev)
  then have a: "sorted_wrt (<) (map f (rev s))" by (simp add: sorted_wrt_map)
  then have "distinct (map f (rev s))" using strict_sorted_iff by blast
  then show d: "distinct (map f s)" by (simp add: rev_map [symmetric])
  then show "inj_on f (set s)" "distinct s" by (simp_all add: distinct_map)
  from a show "sorted (map f (rev s))" using strict_sorted_iff by blast
qed

lemma sort_key_strict_desc:
  fixes f :: "'a \<Rightarrow> nat"
  assumes "sorted_wrt (\<lambda>x y. f y < f x) s"
  shows "sort_key f s = rev s"
proof -
  note p = strict_desc_props [OF assms]
  have "map f (sort_key f s) = map f (rev s)"
  proof (rule sorted_distinct_set_unique)
    show "sorted (map f (sort_key f s))" by simp
    show "distinct (map f (sort_key f s))" using p(1,2,3) by (simp add: distinct_map)
    show "sorted (map f (rev s))" by (rule p(4))
    show "distinct (map f (rev s))" using p(1) by (simp add: rev_map [symmetric])
    show "set (map f (sort_key f s)) = set (map f (rev s))" by simp
  qed
  moreover have "inj_on f (set (sort_key f s) \<union> set (rev s))" using p(2) by simp
  ultimately show ?thesis by (rule map_inj_on)
qed


lemma fst_item_of [simp]: "fst (item_of x) = skey x" "snd (item_of x) = sentry x"
  by (simp_all add: item_of_def)

lemma keys_rev_items: "map fst (rev (map item_of s)) = rev (map skey s)"
  by (simp add: rev_map comp_def)

lemma sim_lookup:
  assumes "sim capacity ttl n c s"
  shows "dict_get (cache c) key = map_option sentry (find (\<lambda>x. skey x = key) s)"
proof -
  from assms have c: "cache c = rev (map item_of s)" and d: "distinct (map skey s)"
    by (simp_all add: sim_def)
  have "distinct (map fst (map item_of s))" using d by (simp add: comp_def)
  then have "map_of (rev (map item_of s)) = map_of (map item_of s)"
    by (rule map_of_rev_distinct)
  then show ?thesis by (simp add: dict_get_def c map_of_find)
qed

lemma sim_filter:
  assumes "sim capacity ttl n c s" and that: "n \<le> m"
  shows "sim capacity ttl m (c\<lparr>cache := dict_del (cache c) key\<rparr>) (filter (\<lambda>y. skey y \<noteq> key) s)"
proof -
  from assms(1) have c: "cache c = rev (map item_of s)" and d: "distinct (map skey s)"
    and so: "sorted_wrt (\<lambda>x y. inserted_by y < inserted_by x) s"
    and b: "list_all (\<lambda>x. inserted_by x < n) s"
    and r: "max_size c = capacity" "ttl_hours c = ttl" "int (length s) \<le> capacity"
    by (simp_all add: sim_def)
  have "distinct (map fst (cache c))" using d by (simp add: c keys_rev_items)
  then have "dict_del (cache c) key = filter (\<lambda>x. fst x \<noteq> key) (cache c)"
    by (rule dict_del_filter)
  also have "\<dots> = rev (map item_of (filter (\<lambda>y. skey y \<noteq> key) s))"
    by (simp add: c rev_filter [symmetric] filter_map comp_def)
  finally have 1: "dict_del (cache c) key = rev (map item_of (filter (\<lambda>y. skey y \<noteq> key) s))" .
  have 2: "sorted_wrt (\<lambda>x y. inserted_by y < inserted_by x) (filter (\<lambda>y. skey y \<noteq> key) s)"
    using so by (rule sorted_wrt_filter)
  have 3: "list_all (\<lambda>x. inserted_by x < m) (filter (\<lambda>y. skey y \<noteq> key) s)"
    using b that by (auto simp: list_all_iff)
  have 4: "distinct (map skey (filter (\<lambda>y. skey y \<noteq> key) s))"
    using d by (rule distinct_map_filter)
  have 5: "int (length (filter (\<lambda>y. skey y \<noteq> key) s)) \<le> capacity"
    using r(3) length_filter_le [of "\<lambda>y. skey y \<noteq> key" s] by linarith
  show ?thesis unfolding sim_def using 1 2 3 4 5 r by simp
qed

lemma sim_mono: "sim capacity ttl n c s \<Longrightarrow> n \<le> m \<Longrightarrow> sim capacity ttl m c s"
  by (auto simp: sim_def list_all_iff)

lemma sim_get:
  assumes "sim capacity ttl n c s"
  shows "fst (cache_get digest c now q ds k) = fst (spec_get s ttl now (generate_cache_key digest q ds k))
     \<and> sim capacity ttl (Suc n) (snd (cache_get digest c now q ds k))
          (snd (spec_get s ttl now (generate_cache_key digest q ds k)))"
proof -
  let ?key = "generate_cache_key digest q ds k"
  have t: "ttl_hours c = ttl" using assms by (simp add: sim_def)
  show ?thesis
  proof (cases "find (\<lambda>x. skey x = ?key) s")
    case None
    then show ?thesis
      using sim_lookup [OF assms, of ?key] sim_mono [OF assms, of "Suc n"]
      by (simp add: cache_get_def spec_get_def Let_def)
  next
    case (Some x)
    then show ?thesis
      using sim_lookup [OF assms, of ?key] sim_mono [OF assms, of "Suc n"]
        sim_filter [OF assms, of "Suc n" ?key]
      by (simp add: cache_get_def spec_get_def Let_def t)
  qed
qed

lemma sim_insert:
  fixes key :: 'k and e :: "'r cache_entry"
  assumes c: "d = rev (map item_of s1)" and dk: "distinct (map skey s1)"
    and so: "sorted_wrt (\<lambda>x y. inserted_by y < inserted_by x) s1"
    and b: "list_all (\<lambda>x. inserted_by x < n) s1"
  defines "s2 \<equiv> (if list_ex (\<lambda>y. skey y = key) s1
         then map (\<lambda>y. if skey y = key then y\<lparr>sentry := e\<rparr> else y) s1
         else \<lparr>skey = key, inserted_by = n, sentry = e\<rparr> # s1)"
  shows "dict_set d key e = rev (map item_of s2)"
    and "distinct (map skey s2)"
    and "sorted_wrt (\<lambda>x y. inserted_by y < inserted_by x) s2"
    and "list_all (\<lambda>x. inserted_by x < Suc n) s2"
    and "length s2 = (if list_ex (\<lambda>y. skey y = key) s1 then length s1 else Suc (length s1))"
proof -
  have keys: "map fst d = rev (map skey s1)" using c by (simp add: keys_rev_items)
  have dd: "distinct (map fst d)" using dk by (simp add: keys)
  let ?u = "\<lambda>y. if skey y = key then y\<lparr>sentry := e\<rparr> else y"
  have ku: "skey (?u y) = skey y" "inserted_by (?u y) = inserted_by y" for y
    by simp_all
  show "dict_set d key e = rev (map item_of s2)"
  proof (cases "list_ex (\<lambda>y. skey y = key) s1")
    case True
    then have "key \<in> set (map fst d)" by (auto simp: keys list_ex_iff)
    with dd have "dict_set d key e = map (\<lambda>x. if fst x = key then (key, e) else x) d"
      by (rule dict_set_present)
    also have "\<dots> = rev (map item_of (map ?u s1))"
      by (simp add: c rev_map comp_def item_of_def cong: if_cong)
    finally show ?thesis using True by (simp add: s2_def)
  next
    case False
    then have "key \<notin> set (map fst d)" by (auto simp: keys list_ex_iff)
    then have "dict_set d key e = d @ [(key, e)]" by (rule dict_set_fresh)
    then show ?thesis using False by (simp add: s2_def c item_of_def)
  qed
  have mk: "map skey (map ?u s1) = map skey s1" by (induction s1) simp_all
  show "distinct (map skey s2)"
    using dk mk by (auto simp: s2_def list_ex_iff simp del: map_map)
  have "sorted_wrt (\<lambda>x y. inserted_by y < inserted_by x) (map ?u s1)"
    unfolding sorted_wrt_map ku using so .
  then show "sorted_wrt (\<lambda>x y. inserted_by y < inserted_by x) s2"
    using so b by (auto simp: s2_def list_all_iff)
  show "list_all (\<lambda>x. inserted_by x < Suc n) s2"
    using b by (auto simp: s2_def list_all_iff less_Suc_eq)
  show "length s2 = (if list_ex (\<lambda>y. skey y = key) s1 then length s1 else Suc (length s1))"
    by (simp add: s2_def)
qed


lemma sim_full:
  assumes pos: "0 < capacity" and sim: "sim capacity ttl n c s"
    and full: "int (length (cache c)) = capacity"
  shows "\<exists>x s'. s = s' @ [x] \<and> cache c = item_of x # rev (map item_of s')
     \<and> spec_oldest s = skey x
     \<and> list_all (\<lambda>y. inserted_by x \<le> inserted_by y) s
     \<and> filter (\<lambda>y. skey y \<noteq> spec_oldest s) s = s'
     \<and> dict_del (cache c) (skey x) = rev (map item_of s')"
proof -
  from sim have c: "cache c = rev (map item_of s)" and d: "distinct (map skey s)"
    and so: "sorted_wrt (\<lambda>x y. inserted_by y < inserted_by x) s"
    by (simp_all add: sim_def)
  from full pos c have "s \<noteq> []" by auto
  then obtain s' x where s: "s = s' @ [x]" by (metis append_butlast_last_id)
  have l: "arg_min_list inserted_by s = x"
    using arg_min_list_last [OF \<open>s \<noteq> []\<close> so] by (simp add: s)
  then have o: "spec_oldest s = skey x" by (simp add: spec_oldest_def)
  have m: "list_all (\<lambda>y. inserted_by x \<le> inserted_by y) s"
    using so by (auto simp: s sorted_wrt_append list_all_iff less_imp_le)
  have "skey x \<notin> skey ` set s'" using d by (simp add: s)
  then have "\<forall>y \<in> set s'. skey y \<noteq> skey x" by (metis imageI)
  then have "filter (\<lambda>y. skey y \<noteq> skey x) s' = s'"
    by (intro filter_True) simp
  then have f: "filter (\<lambda>y. skey y \<noteq> spec_oldest s) s = s'" unfolding o by (simp add: s)
  have c': "cache c = item_of x # rev (map item_of s')" by (simp add: c s)
  have "dict_del (cache c) (skey x) = rev (map item_of s')" by (simp add: c' item_of_def)
  with s c' o m f show ?thesis by blast
qed

lemma sim_set:
  assumes pos: "0 < capacity" and sim: "sim capacity ttl n c s"
  shows "\<exists>c'. cache_set digest c now q ds k r = Inr c'
     \<and> sim capacity ttl (Suc n) c'
          (spec_set s capacity n (generate_cache_key digest q ds k) \<lparr>response = r, cached_at = now\<rparr>)"
proof -
  let ?key = "generate_cache_key digest q ds k"
  let ?e = "\<lparr>response = r, cached_at = now\<rparr>"
  from sim have c: "cache c = rev (map item_of s)" and d: "distinct (map skey s)"
    and so: "sorted_wrt (\<lambda>x y. inserted_by y < inserted_by x) s"
    and b: "list_all (\<lambda>x. inserted_by x < n) s"
    and r: "max_size c = capacity" "ttl_hours c = ttl" "int (length s) \<le> capacity"
    by (simp_all add: sim_def)
  have len: "length (cache c) = length s" by (simp add: c)
  show ?thesis
  proof (cases "int (length s) = capacity")
    case True
    with len have "int (length (cache c)) = capacity" by simp
    from sim_full [OF pos sim this] obtain x s' where
      s: "s = s' @ [x]" and c': "cache c = item_of x # rev (map item_of s')"
      and f: "filter (\<lambda>y. skey y \<noteq> spec_oldest s) s = s'"
      and dl: "dict_del (cache c) (skey x) = rev (map item_of s')"
      by blast
    have 1: "distinct (map skey s')" using d by (simp add: s)
    have 2: "sorted_wrt (\<lambda>x y. inserted_by y < inserted_by x) s'"
      using so by (simp add: s sorted_wrt_append)
    have 3: "list_all (\<lambda>x. inserted_by x < n) s'" using b by (simp add: s)
    note i = sim_insert [OF dl 1 2 3, of ?key ?e]
    have cs: "cache_set digest c now q ds k r
        = Inr (c\<lparr>cache := dict_set (dict_del (cache c) (skey x)) ?key ?e\<rparr>)"
      using True len r(1) by (simp add: cache_set_def Let_def c' item_of_def)
    have sp: "spec_set s capacity n ?key ?e =
        (if list_ex (\<lambda>y. skey y = ?key) s'
         then map (\<lambda>y. if skey y = ?key then y\<lparr>sentry := ?e\<rparr> else y) s'
         else \<lparr>skey = ?key, inserted_by = n, sentry = ?e\<rparr> # s')"
      using True by (simp add: spec_set_def Let_def f)
    have "int (length (spec_set s capacity n ?key ?e)) \<le> capacity"
      unfolding sp i(5) using True by (simp add: s)
    then have "sim capacity ttl (Suc n) (c\<lparr>cache := dict_set (dict_del (cache c) (skey x)) ?key ?e\<rparr>)
        (spec_set s capacity n ?key ?e)"
      unfolding sim_def sp using i(1-4) r(1,2) by simp
    with cs show ?thesis by simp
  next
    case False
    with r(3) have lt: "int (length s) < capacity" by simp
    note i = sim_insert [OF c d so b, of ?key ?e]
    have cs: "cache_set digest c now q ds k r = Inr (c\<lparr>cache := dict_set (cache c) ?key ?e\<rparr>)"
      using lt len r(1) by (simp add: cache_set_def Let_def)
    have sp: "spec_set s capacity n ?key ?e =
        (if list_ex (\<lambda>y. skey y = ?key) s
         then map (\<lambda>y. if skey y = ?key then y\<lparr>sentry := ?e\<rparr> else y) s
         else \<lparr>skey = ?key, inserted_by = n, sentry = ?e\<rparr> # s)"
      using False by (simp add: spec_set_def Let_def)
    have "int (length (spec_set s capacity n ?key ?e)) \<le> capacity"
      unfolding sp i(5) using lt by simp
    then have "sim capacity ttl (Suc n) (c\<lparr>cache := dict_set (cache c) ?key ?e\<rparr>)
        (spec_set s capacity n ?key ?e)"
      unfolding sim_def sp using i(1-4) r(1,2) by simp
    with cs show ?thesis by simp
  qed
qed

lemma sim_new: "0 \<le> capacity \<Longrightarrow> sim capacity ttl 0 (new_cache capacity ttl) []"
  by (simp add: sim_def new_cache_def)

lemma sim_run:
  assumes "0 < capacity"
  shows "sim capacity ttl n c s
     \<Longrightarrow> sim capacity ttl (n + length ops) (run_ops digest c ops) (spec_run digest capacity ttl n s ops)"
proof (induction ops arbitrary: n c s)
  case Nil
  then show ?case by simp
next
  case (Cons op ops)
  show ?case
  proof (cases op)
    case (GetOp now q ds k)
    from sim_get [OF Cons.prems, of digest now q ds k]
    have "sim capacity ttl (Suc n) (snd (cache_get digest c now q ds k))
          (snd (spec_get s ttl now (generate_cache_key digest q ds k)))" by simp
    from Cons.IH [OF this] GetOp show ?thesis by simp
  next
    case (SetOp now q ds k r)
    from sim_set [OF assms Cons.prems, of digest now q ds k r] obtain c' where
      cs: "cache_set digest c now q ds k r = Inr c'"
      and s': "sim capacity ttl (Suc n) c'
          (spec_set s capacity n (generate_cache_key digest q ds k) \<lparr>response = r, cached_at = now\<rparr>)"
      by blast
    from Cons.IH [OF s'] SetOp cs show ?thesis by simp
  qed
qed


lemma spec_get_subset:
  "set (snd (spec_get s ttl now key)) \<subseteq> set s"
  by (auto simp: spec_get_def split: option.splits)

lemma spec_set_items:
  assumes "y \<in> set (spec_set s capacity n key e)"
  shows "(\<exists>x \<in> set s. skey y = skey x \<and> inserted_by y = inserted_by x)
     \<or> (skey y = key \<and> inserted_by y = n)"
  using assms by (auto simp: spec_set_def Let_def split: if_splits)

lemma history_run:
  "list_all (\<lambda>x. inserted_by x < length hist \<and> sets_key digest (hist ! inserted_by x) (skey x)) s
     \<Longrightarrow> list_all (\<lambda>x. inserted_by x < length (hist @ ops)
            \<and> sets_key digest ((hist @ ops) ! inserted_by x) (skey x))
          (spec_run digest capacity ttl (length hist) s ops)"
proof (induction ops arbitrary: hist s)
  case Nil
  then show ?case by simp
next
  case (Cons op ops)
  let ?P = "\<lambda>h x. inserted_by x < length h \<and> sets_key digest (h ! inserted_by x) (skey x)"
  have old: "?P (hist @ [op]) y" if "x \<in> set s" "skey y = skey x" "inserted_by y = inserted_by x" for x y
    using Cons.prems that by (auto simp: list_all_iff nth_append)
  show ?case
  proof (cases op)
    case (GetOp now q ds k)
    let ?s' = "snd (spec_get s ttl now (generate_cache_key digest q ds k))"
    have "list_all (?P (hist @ [op])) ?s'"
      unfolding list_all_iff using old spec_get_subset [of s ttl now] by blast
    from Cons.IH [OF this] GetOp show ?thesis by simp
  next
    case (SetOp now q ds k r)
    let ?key = "generate_cache_key digest q ds k"
    let ?s' = "spec_set s capacity (length hist) ?key \<lparr>response = r, cached_at = now\<rparr>"
    have new: "?P (hist @ [op]) y" if "skey y = ?key" "inserted_by y = length hist" for y
      using that SetOp by simp
    have "list_all (?P (hist @ [op])) ?s'"
      unfolding list_all_iff using old new spec_set_items [of _ s capacity "length hist" ?key]
      by blast
    from Cons.IH [OF this] SetOp show ?thesis by simp
  qed
qed

lemma set_entries_append:
  "set_entries digest (xs @ ys) = set_entries digest xs @ set_entries digest ys"
  by (induction digest xs rule: set_entries.induct) simp_all

lemma fifo_window:
  assumes pos: "0 < capacity"
  shows "max_size c = capacity \<Longrightarrow> ttl_hours c = ttl
     \<Longrightarrow> cache c = drop (length pre - nat capacity) pre
     \<Longrightarrow> list_all (\<lambda>x. T \<le> cached_at (snd x)) pre
     \<Longrightarrow> distinct (map fst (pre @ set_entries digest ops))
     \<Longrightarrow> list_all (\<lambda>op. T \<le> op_time op \<and> op_time op < T + timedelta_hours ttl) ops
     \<Longrightarrow> cache (run_ops digest c ops)
          = drop (length (pre @ set_entries digest ops) - nat capacity) (pre @ set_entries digest ops)"
proof (induction ops arbitrary: c pre)
  case Nil
  then show ?case by simp
next
  case (Cons op ops)
  show ?case
  proof (cases op)
    case (GetOp now q ds k)
    let ?key = "generate_cache_key digest q ds k"
    have w: "T \<le> now" "now < T + timedelta_hours ttl" using Cons.prems(6) GetOp by simp_all
    have "snd (cache_get digest c now q ds k) = c"
    proof (cases "dict_get (cache c) ?key")
      case None
      then show ?thesis by (simp add: cache_get_def Let_def)
    next
      case (Some item)
      then have "(?key, item) \<in> set (cache c)" by (simp add: dict_get_def map_of_SomeD)
      then have "(?key, item) \<in> set pre" unfolding Cons.prems(3) by (rule in_set_dropD)
      with Cons.prems(4) have "T \<le> cached_at item" by (auto simp: list_all_iff)
      with w Some show ?thesis by (simp add: cache_get_def Let_def Cons.prems(2))
    qed
    with Cons.IH [of c pre] Cons.prems GetOp show ?thesis by simp
  next
    case (SetOp now q ds k r)
    let ?key = "generate_cache_key digest q ds k"
    let ?e = "\<lparr>response = r, cached_at = now\<rparr>"
    let ?pre = "pre @ [(?key, ?e)]"
    have w: "T \<le> now" using Cons.prems(6) SetOp by simp
    have fresh: "?key \<notin> set (map fst pre)" using Cons.prems(5) SetOp by auto
    then have fresh': "?key \<notin> set (map fst (drop m pre))" for m
      by (metis drop_map in_set_dropD)
    have "\<exists>c'. cache_set digest c now q ds k r = Inr c' \<and> max_size c' = capacity
        \<and> ttl_hours c' = ttl \<and> cache c' = drop (length ?pre - nat capacity) ?pre"
    proof (cases "int (length (cache c)) \<ge> capacity")
      case True
      then have ge: "nat capacity \<le> length pre" unfolding Cons.prems(3) by simp
      with pos have lt: "length pre - nat capacity < length pre" by linarith
      then have dr: "drop (length pre - nat capacity) pre
          = pre ! (length pre - nat capacity) # drop (Suc (length pre - nat capacity)) pre"
        by (rule Cons_nth_drop_Suc [symmetric])
      obtain ok ov where o: "pre ! (length pre - nat capacity) = (ok, ov)" by (cases "pre ! (length pre - nat capacity)")
      have s: "Suc (length pre - nat capacity) = length ?pre - nat capacity" using ge by simp
      have "cache_set digest c now q ds k r
          = Inr (c\<lparr>cache := dict_set (drop (Suc (length pre - nat capacity)) pre) ?key ?e\<rparr>)"
        using True Cons.prems(1) by (simp add: cache_set_def Let_def Cons.prems(3) dr o)
      moreover have "dict_set (drop (Suc (length pre - nat capacity)) pre) ?key ?e
          = drop (length ?pre - nat capacity) ?pre"
        using dict_set_fresh [OF fresh', of "Suc (length pre - nat capacity)" ?e] ge pos
        unfolding s by simp
      ultimately show ?thesis using Cons.prems(1,2) by simp
    next
      case False
      then have lt: "length pre < nat capacity" unfolding Cons.prems(3) by auto
      then have "cache c = pre" using Cons.prems(3) by simp
      then have "cache_set digest c now q ds k r = Inr (c\<lparr>cache := pre @ [(?key, ?e)]\<rparr>)"
        using False Cons.prems(1) fresh by (simp add: cache_set_def Let_def dict_set_fresh)
      moreover have "drop (length ?pre - nat capacity) ?pre = ?pre" using lt by simp
      ultimately show ?thesis using Cons.prems(1,2) by simp
    qed
    then obtain c' where cs: "cache_set digest c now q ds k r = Inr c'"
      and m: "max_size c' = capacity" "ttl_hours c' = ttl"
      and c': "cache c' = drop (length ?pre - nat capacity) ?pre"
      by blast
    have 4: "list_all (\<lambda>x. T \<le> cached_at (snd x)) ?pre" using Cons.prems(4) w by simp
    have 5: "distinct (map fst (?pre @ set_entries digest ops))" using Cons.prems(5) SetOp by simp
    have 6: "list_all (\<lambda>op. T \<le> op_time op \<and> op_time op < T + timedelta_hours ttl) ops"
      using Cons.prems(6) by simp
    from Cons.IH [OF m c' 4 5 6] SetOp cs show ?thesis by simp
  qed
qed

lemma fifo_last_inserted:
  assumes "0 < capacity"
    and "distinct (map fst (set_entries digest ops))"
    and "list_all (\<lambda>op. T \<le> op_time op \<and> op_time op < T + timedelta_hours ttl) ops"
  shows "cache (run_ops digest (new_cache capacity ttl) ops)
     = drop (length (set_entries digest ops) - nat capacity) (set_entries digest ops)"
  using fifo_window [OF assms(1), of "new_cache capacity ttl" ttl "[]" T digest ops] assms(2,3)
  by (simp add: new_cache_def)


lemma refinement:
  fixes digest :: "key_data \<Rightarrow> 'k" and ops :: "'r cache_op list" and capacity ttl :: int
  assumes pos: "0 < capacity"
  defines "c \<equiv> run_ops digest (new_cache capacity ttl) ops"
    and "s \<equiv> spec_run digest capacity ttl 0 [] ops"
  shows "cache c = map item_of (sort_key inserted_by s)"
    and "distinct (map inserted_by s)"
    and "list_all (\<lambda>x. inserted_by x < length ops \<and> sets_key digest (ops ! inserted_by x) (skey x)) s"
    and "fst (cache_get digest c now q ds k) = fst (spec_get s ttl now (generate_cache_key digest q ds k))"
    and "sim capacity ttl (length ops) c s"
proof -
  have "sim capacity ttl 0 (new_cache capacity ttl) []" using pos by (intro sim_new) simp
  from sim_run [OF pos this, of ops digest] show sim: "sim capacity ttl (length ops) c s"
    by (simp add: c_def s_def)
  then have c: "cache c = rev (map item_of s)"
    and so: "sorted_wrt (\<lambda>x y. inserted_by y < inserted_by x) s"
    by (simp_all add: sim_def)
  show "cache c = map item_of (sort_key inserted_by s)"
    by (simp add: c sort_key_strict_desc [OF so] rev_map)
  show "distinct (map inserted_by s)" by (rule strict_desc_props(1) [OF so])
  from history_run [of "[]" digest "[]" ops capacity ttl]
  show "list_all (\<lambda>x. inserted_by x < length ops \<and> sets_key digest (ops ! inserted_by x) (skey x)) s"
    by (simp add: s_def)
  from sim_get [OF sim, of digest now q ds k]
  show "fst (cache_get digest c now q ds k) = fst (spec_get s ttl now (generate_cache_key digest q ds k))"
    by simp
qed

lemma eviction_step:
  assumes pos: "0 < capacity" and sim: "sim capacity ttl n c s"
  shows "int (length (cache c)) < capacity \<Longrightarrow>
       cache_set digest c now q ds k r
         = Inr (c\<lparr>cache := dict_set (cache c) (generate_cache_key digest q ds k) \<lparr>response = r, cached_at = now\<rparr>\<rparr>)"
    and "int (length (cache c)) = capacity \<Longrightarrow>
       \<exists>oldest rest. cache c = oldest # rest
          \<and> fst oldest \<notin> set (map fst rest)
          \<and> fst oldest = spec_oldest s
          \<and> list_ex (\<lambda>x. skey x = fst oldest \<and> list_all (\<lambda>y. inserted_by x \<le> inserted_by y) s) s
          \<and> cache_set digest c now q ds k r
              = Inr (c\<lparr>cache := dict_set rest (generate_cache_key digest q ds k) \<lparr>response = r, cached_at = now\<rparr>\<rparr>)"
proof -
  from sim have m: "max_size c = capacity" and d: "distinct (map skey s)"
    by (simp_all add: sim_def)
  show "cache_set digest c now q ds k r
         = Inr (c\<lparr>cache := dict_set (cache c) (generate_cache_key digest q ds k) \<lparr>response = r, cached_at = now\<rparr>\<rparr>)"
    if "int (length (cache c)) < capacity"
    using that m by (simp add: cache_set_def Let_def)
  show "\<exists>oldest rest. cache c = oldest # rest
          \<and> fst oldest \<notin> set (map fst rest)
          \<and> fst oldest = spec_oldest s
          \<and> list_ex (\<lambda>x. skey x = fst oldest \<and> list_all (\<lambda>y. inserted_by x \<le> inserted_by y) s) s
          \<and> cache_set digest c now q ds k r
              = Inr (c\<lparr>cache := dict_set rest (generate_cache_key digest q ds k) \<lparr>response = r, cached_at = now\<rparr>\<rparr>)"
    if full: "int (length (cache c)) = capacity"
  proof -
    from sim_full [OF pos sim full] obtain x s' where
      s: "s = s' @ [x]" and c': "cache c = item_of x # rev (map item_of s')"
      and o: "spec_oldest s = skey x"
      and mn: "list_all (\<lambda>y. inserted_by x \<le> inserted_by y) s"
      by blast
    have 1: "fst (item_of x) \<notin> set (map fst (rev (map item_of s')))"
      using d by (simp add: s keys_rev_items)
    have 2: "list_ex (\<lambda>x'. skey x' = fst (item_of x)
        \<and> list_all (\<lambda>y. inserted_by x' \<le> inserted_by y) s) s"
      using mn by (auto simp: list_ex_iff s)
    have 3: "cache_set digest c now q ds k r
        = Inr (c\<lparr>cache := dict_set (rev (map item_of s')) (generate_cache_key digest q ds k)
                 \<lparr>response = r, cached_at = now\<rparr>\<rparr>)"
      using full m by (simp add: cache_set_def Let_def c' item_of_def)
    from c' 1 o 2 3 show ?thesis by (intro exI [of _ "item_of x"] exI [of _ "rev (map item_of s')"]) simp
  qed
qed

lemma set_entries_sets:
  "set_entries digest (map (\<lambda>i. SetOp (t i) q ds (k i) (r i)) xs)
     = map (\<lambda>i. (generate_cache_key digest q ds (k i), \<lparr>response = r i, cached_at = t i\<rparr>)) xs"
  by (induction xs) simp_all

lemma run_ops_ttl: "ttl_hours (run_ops digest c ops) = ttl_hours c"
proof (induction ops arbitrary: c)
  case Nil
  then show ?case by simp
next
  case (Cons op ops)
  show ?case
  proof (cases op)
    case (GetOp now q ds k)
    have "ttl_hours (snd (cache_get digest c now q ds k)) = ttl_hours c"
      by (simp add: cache_get_def Let_def split: option.splits)
    with Cons.IH [of "snd (cache_get digest c now q ds k)"] GetOp show ?thesis by simp
  next
    case (SetOp now q ds k r)
    show ?thesis
    proof (cases "cache_set digest c now q ds k r")
      case (Inl e)
      with SetOp Cons.IH [of c] show ?thesis by simp
    next
      case (Inr c')
      then have "ttl_hours c' = ttl_hours c"
        by (auto simp: cache_set_def Let_def split: if_splits list.splits)
      with SetOp Inr Cons.IH [of c'] show ?thesis by simp
    qed
  qed
qed

text \<open>
  Claim C3. Take any sequence of \<^verbatim>\<open>get\<close> and \<^verbatim>\<open>set\<close> calls on a new cache of
  capacity at least 1, and run the same calls on the store of the
  specification, which records for every stored key the number of the call that
  inserted it (a \<^verbatim>\<open>set\<close> of a key that is stored replaces the entry and is
  not an insertion). Then the dict of the code holds the same keys and entries,
  in the order of their insertion numbers, earliest first; every stored key was
  inserted by the \<^verbatim>\<open>set\<close> call of that number; and a \<^verbatim>\<open>get\<close> returns the
  same in both. On such a cache, a \<^verbatim>\<open>set\<close> called while it holds fewer than
  \<open>max_size\<close> entries evicts nothing: it writes the entry, a new key going to
  the end. A \<^verbatim>\<open>set\<close> called while it holds \<open>max_size\<close> entries removes
  exactly one entry before the insert, the first of the dict, and its key is
  the key with the least insertion number, the one inserted earliest. A
  \<^verbatim>\<open>get\<close> that hits leaves the cache as it is, so reading an entry does not
  protect it. In particular, when the \<^verbatim>\<open>set\<close> calls of a sequence have
  pairwise different keys and no entry expires during it, the cache holds in
  the end exactly the entries of the last \<open>max_size\<close> \<^verbatim>\<open>set\<close> calls, in call
  order, whatever \<^verbatim>\<open>get\<close> calls lie between them: after 501 inserts into a
  cache of capacity 500 the first entry is gone, also when it was read last. The
  number of entries never exceeds \<open>max_size\<close>.
\<close>

theorem cache_fifo_eviction:
  "(0 < capacity \<longrightarrow>
      (let c = run_ops digest (new_cache capacity ttl) ops;
           s = spec_run digest capacity ttl 0 [] ops;
           key = generate_cache_key digest q ds k;
           e = \<lparr>response = r, cached_at = now\<rparr>
       in cache c = map item_of (sort_key inserted_by s)
          \<and> distinct (map inserted_by s)
          \<and> list_all (\<lambda>x. inserted_by x < length ops
                \<and> sets_key digest (ops ! inserted_by x) (skey x)) s
          \<and> fst (cache_get digest c now q ds k) = fst (spec_get s ttl now key)
          \<and> (int (length (cache c)) < capacity \<longrightarrow>
                cache_set digest c now q ds k r = Inr (c\<lparr>cache := dict_set (cache c) key e\<rparr>)
                \<and> (key \<notin> set (map fst (cache c)) \<longrightarrow>
                      dict_set (cache c) key e = cache c @ [(key, e)]))
          \<and> (int (length (cache c)) = capacity \<longrightarrow>
                (\<exists>oldest rest. cache c = oldest # rest
                   \<and> fst oldest \<notin> set (map fst rest)
                   \<and> fst oldest = spec_oldest s
                   \<and> list_ex (\<lambda>x. skey x = fst oldest
                         \<and> list_all (\<lambda>y. inserted_by x \<le> inserted_by y) s) s
                   \<and> cache_set digest c now q ds k r = Inr (c\<lparr>cache := dict_set rest key e\<rparr>)
                   \<and> (key \<notin> set (map fst rest) \<longrightarrow>
                         dict_set rest key e = rest @ [(key, e)])))))
   \<and> (cache_get digest c0 now0 q0 ds0 k0 = (Some r0, c1) \<longrightarrow> c1 = c0)
   \<and> (0 < capacity \<and> distinct (map fst (set_entries digest ops))
        \<and> list_all (\<lambda>op. T \<le> op_time op \<and> op_time op < T + timedelta_hours ttl) ops \<longrightarrow>
        cache (run_ops digest (new_cache capacity ttl) ops)
          = drop (length (set_entries digest ops) - nat capacity) (set_entries digest ops))
   \<and> (0 \<le> capacity \<longrightarrow>
        int (length (cache (run_ops digest (new_cache capacity ttl) ops))) \<le> capacity)"
proof (intro conjI)
  show "0 < capacity \<longrightarrow>
      (let c = run_ops digest (new_cache capacity ttl) ops;
           s = spec_run digest capacity ttl 0 [] ops;
           key = generate_cache_key digest q ds k;
           e = \<lparr>response = r, cached_at = now\<rparr>
       in cache c = map item_of (sort_key inserted_by s)
          \<and> distinct (map inserted_by s)
          \<and> list_all (\<lambda>x. inserted_by x < length ops
                \<and> sets_key digest (ops ! inserted_by x) (skey x)) s
          \<and> fst (cache_get digest c now q ds k) = fst (spec_get s ttl now key)
          \<and> (int (length (cache c)) < capacity \<longrightarrow>
                cache_set digest c now q ds k r = Inr (c\<lparr>cache := dict_set (cache c) key e\<rparr>)
                \<and> (key \<notin> set (map fst (cache c)) \<longrightarrow>
                      dict_set (cache c) key e = cache c @ [(key, e)]))
          \<and> (int (length (cache c)) = capacity \<longrightarrow>
                (\<exists>oldest rest. cache c = oldest # rest
                   \<and> fst oldest \<notin> set (map fst rest)
                   \<and> fst oldest = spec_oldest s
                   \<and> list_ex (\<lambda>x. skey x = fst oldest
                         \<and> list_all (\<lambda>y. inserted_by x \<le> inserted_by y) s) s
                   \<and> cache_set digest c now q ds k r = Inr (c\<lparr>cache := dict_set rest key e\<rparr>)
                   \<and> (key \<notin> set (map fst rest) \<longrightarrow>
                         dict_set rest key e = rest @ [(key, e)]))))"
  proof
    assume pos: "0 < capacity"
    note r = refinement [OF pos, where digest = digest and ttl = ttl and ops = ops]
    note e = eviction_step [OF pos r(5), of digest now q ds k r]
    show "let c = run_ops digest (new_cache capacity ttl) ops;
           s = spec_run digest capacity ttl 0 [] ops;
           key = generate_cache_key digest q ds k;
           e = \<lparr>response = r, cached_at = now\<rparr>
       in cache c = map item_of (sort_key inserted_by s)
          \<and> distinct (map inserted_by s)
          \<and> list_all (\<lambda>x. inserted_by x < length ops
                \<and> sets_key digest (ops ! inserted_by x) (skey x)) s
          \<and> fst (cache_get digest c now q ds k) = fst (spec_get s ttl now key)
          \<and> (int (length (cache c)) < capacity \<longrightarrow>
                cache_set digest c now q ds k r = Inr (c\<lparr>cache := dict_set (cache c) key e\<rparr>)
                \<and> (key \<notin> set (map fst (cache c)) \<longrightarrow>
                      dict_set (cache c) key e = cache c @ [(key, e)]))
          \<and> (int (length (cache c)) = capacity \<longrightarrow>
                (\<exists>oldest rest. cache c = oldest # rest
                   \<and> fst oldest \<notin> set (map fst rest)
                   \<and> fst oldest = spec_oldest s
                   \<and> list_ex (\<lambda>x. skey x = fst oldest
                         \<and> list_all (\<lambda>y. inserted_by x \<le> inserted_by y) s) s
                   \<and> cache_set digest c now q ds k r = Inr (c\<lparr>cache := dict_set rest key e\<rparr>)
                   \<and> (key \<notin> set (map fst rest) \<longrightarrow>
                         dict_set rest key e = rest @ [(key, e)])))"
      unfolding Let_def
    proof (intro conjI impI)
      show "cache (run_ops digest (new_cache capacity ttl) ops)
          = map item_of (sort_key inserted_by (spec_run digest capacity ttl 0 [] ops))"
        by (rule r(1))
      show "distinct (map inserted_by (spec_run digest capacity ttl 0 [] ops))" by (rule r(2))
      show "list_all (\<lambda>x. inserted_by x < length ops
                \<and> sets_key digest (ops ! inserted_by x) (skey x))
              (spec_run digest capacity ttl 0 [] ops)"
        by (rule r(3))
      show "fst (cache_get digest (run_ops digest (new_cache capacity ttl) ops) now q ds k)
          = fst (spec_get (spec_run digest capacity ttl 0 [] ops) ttl now
                  (generate_cache_key digest q ds k))"
        by (rule r(4))
    next
      assume "int (length (cache (run_ops digest (new_cache capacity ttl) ops))) < capacity"
      then show "cache_set digest (run_ops digest (new_cache capacity ttl) ops) now q ds k r =
        Inr (run_ops digest (new_cache capacity ttl) ops
            \<lparr>cache := dict_set (cache (run_ops digest (new_cache capacity ttl) ops))
                 (generate_cache_key digest q ds k) \<lparr>response = r, cached_at = now\<rparr>\<rparr>)"
        by (rule e(1))
    next
      assume "generate_cache_key digest q ds k
          \<notin> set (map fst (cache (run_ops digest (new_cache capacity ttl) ops)))"
      then show "dict_set (cache (run_ops digest (new_cache capacity ttl) ops))
           (generate_cache_key digest q ds k) \<lparr>response = r, cached_at = now\<rparr>
         = cache (run_ops digest (new_cache capacity ttl) ops)
           @ [(generate_cache_key digest q ds k, \<lparr>response = r, cached_at = now\<rparr>)]"
        by (rule dict_set_fresh)
    next
      assume "int (length (cache (run_ops digest (new_cache capacity ttl) ops))) = capacity"
      from e(2) [OF this] obtain oldest rest where
        "cache (run_ops digest (new_cache capacity ttl) ops) = oldest # rest"
        "fst oldest \<notin> set (map fst rest)"
        "fst oldest = spec_oldest (spec_run digest capacity ttl 0 [] ops)"
        "list_ex (\<lambda>x. skey x = fst oldest
           \<and> list_all (\<lambda>y. inserted_by x \<le> inserted_by y) (spec_run digest capacity ttl 0 [] ops))
           (spec_run digest capacity ttl 0 [] ops)"
        "cache_set digest (run_ops digest (new_cache capacity ttl) ops) now q ds k r
          = Inr (run_ops digest (new_cache capacity ttl) ops
              \<lparr>cache := dict_set rest (generate_cache_key digest q ds k)
                  \<lparr>response = r, cached_at = now\<rparr>\<rparr>)"
        by blast
      then show "\<exists>oldest rest. cache (run_ops digest (new_cache capacity ttl) ops) = oldest # rest
           \<and> fst oldest \<notin> set (map fst rest)
           \<and> fst oldest = spec_oldest (spec_run digest capacity ttl 0 [] ops)
           \<and> list_ex (\<lambda>x. skey x = fst oldest
                 \<and> list_all (\<lambda>y. inserted_by x \<le> inserted_by y)
                     (spec_run digest capacity ttl 0 [] ops))
               (spec_run digest capacity ttl 0 [] ops)
           \<and> cache_set digest (run_ops digest (new_cache capacity ttl) ops) now q ds k r
               = Inr (run_ops digest (new_cache capacity ttl) ops
                   \<lparr>cache := dict_set rest (generate_cache_key digest q ds k)
                       \<lparr>response = r, cached_at = now\<rparr>\<rparr>)
           \<and> (generate_cache_key digest q ds k \<notin> set (map fst rest) \<longrightarrow>
                 dict_set rest (generate_cache_key digest q ds k) \<lparr>response = r, cached_at = now\<rparr>
                 = rest @ [(generate_cache_key digest q ds k, \<lparr>response = r, cached_at = now\<rparr>)])"
        by (intro exI [of _ oldest] exI [of _ rest]) (simp add: dict_set_fresh)
    qed
  qed
next
  show "cache_get digest c0 now0 q0 ds0 k0 = (Some r0, c1) \<longrightarrow> c1 = c0"
    by (auto dest: cache_get_hit_unchanged)
next
  show "0 < capacity \<and> distinct (map fst (set_entries digest ops))
        \<and> list_all (\<lambda>op. T \<le> op_time op \<and> op_time op < T + timedelta_hours ttl) ops \<longrightarrow>
        cache (run_ops digest (new_cache capacity ttl) ops)
          = drop (length (set_entries digest ops) - nat capacity) (set_entries digest ops)"
    using fifo_last_inserted [of capacity digest ops T ttl] by blast
next
  show "0 \<le> capacity \<longrightarrow>
        int (length (cache (run_ops digest (new_cache capacity ttl) ops))) \<le> capacity"
    using run_ops_size [of "new_cache capacity ttl" digest ops] by (simp add: new_cache_def)
qed


theorem cache_fifo_eviction_witness:
  "cache (run_ops kd_top_k (new_cache 3 24)
       [SetOp 1 ''q'' None 1 ''a'', SetOp 2 ''q'' None 2 ''b'', SetOp 3 ''q'' None 1 ''a2'',
        GetOp 4 ''q'' None 1, SetOp 5 ''q'' None 3 ''c''])
     = [(1, \<lparr>response = ''a2'', cached_at = 3\<rparr>), (2, \<lparr>response = ''b'', cached_at = 2\<rparr>),
        (3, \<lparr>response = ''c'', cached_at = 5\<rparr>)]
   \<and> map (\<lambda>x. (skey x, inserted_by x)) (spec_run kd_top_k 3 24 0 ([] :: (int, string) stored list)
       [SetOp 1 ''q'' None 1 ''a'', SetOp 2 ''q'' None 2 ''b'', SetOp 3 ''q'' None 1 ''a2'',
        GetOp 4 ''q'' None 1, SetOp 5 ''q'' None 3 ''c''])
     = [(3, 4), (2, 1), (1, 0)]
   \<and> (\<exists>c'. cache_set kd_top_k (run_ops kd_top_k (new_cache 3 24)
         [SetOp 1 ''q'' None 1 ''a'', SetOp 2 ''q'' None 2 ''b'', SetOp 3 ''q'' None 1 ''a2'',
          GetOp 4 ''q'' None 1, SetOp 5 ''q'' None 3 ''c'']) 6 ''q'' None 4 ''d'' = Inr c'
        \<and> cache c' = [(2, \<lparr>response = ''b'', cached_at = 2\<rparr>), (3, \<lparr>response = ''c'', cached_at = 5\<rparr>),
                       (4, \<lparr>response = ''d'', cached_at = 6\<rparr>)])
   \<and> cache (run_ops kd_top_k (new_cache 500 24)
         (map (\<lambda>i. SetOp (int i) ''q'' None (int i) ''old'') [0..<500]))
       = map (\<lambda>i. (int i, \<lparr>response = ''old'', cached_at = int i\<rparr>)) [0..<500]
   \<and> fst (cache_get kd_top_k (run_ops kd_top_k (new_cache 500 24)
         (map (\<lambda>i. SetOp (int i) ''q'' None (int i) ''old'') [0..<500])) 500 ''q'' None 0) = Some ''old''
   \<and> cache (run_ops kd_top_k (new_cache 500 24)
         (map (\<lambda>i. SetOp (int i) ''q'' None (int i) ''old'') [0..<500]
            @ [GetOp 500 ''q'' None 0, SetOp 501 ''q'' None 500 ''new'']))
       = map (\<lambda>i. (int i, \<lparr>response = ''old'', cached_at = int i\<rparr>)) [1..<500]
           @ [(500, \<lparr>response = ''new'', cached_at = 501\<rparr>)]"
proof -
  let ?ops = "[SetOp 1 ''q'' None 1 ''a'', SetOp 2 ''q'' None 2 ''b'', SetOp 3 ''q'' None 1 ''a2'',
        GetOp 4 ''q'' None 1, SetOp 5 ''q'' None 3 ''c''] :: string cache_op list"
  let ?C = "run_ops kd_top_k (new_cache 3 24) ?ops :: (int, string) response_cache"
  let ?S = "spec_run kd_top_k 3 24 0 ([] :: (int, string) stored list) ?ops"
  let ?rest = "[(2, \<lparr>response = ''b'', cached_at = 2\<rparr>), (3, \<lparr>response = ''c'', cached_at = 5\<rparr>)]
      :: (int \<times> string cache_entry) list"
  have key: "generate_cache_key kd_top_k ''q'' None j = j" for j
    by (simp add: generate_cache_key_def key_data_of_def Let_def)
  have cv: "?C = \<lparr>cache = (1, \<lparr>response = ''a2'', cached_at = 3\<rparr>) # ?rest, max_size = 3, ttl_hours = 24\<rparr>"
    by (simp add: new_cache_def cache_set_def cache_get_def key dict_get_def timedelta_hours_def)
  have sv: "?S = [\<lparr>skey = 3, inserted_by = 4, sentry = \<lparr>response = ''c'', cached_at = 5\<rparr>\<rparr>,
        \<lparr>skey = 2, inserted_by = 1, sentry = \<lparr>response = ''b'', cached_at = 2\<rparr>\<rparr>,
        \<lparr>skey = 1, inserted_by = 0, sentry = \<lparr>response = ''a2'', cached_at = 3\<rparr>\<rparr>]"
    by (simp add: spec_set_def spec_get_def spec_oldest_def key timedelta_hours_def Let_def
        eval_nat_numeral)
  have p3: "0 < (3 :: int)" by simp
  note a = cache_fifo_eviction [where capacity = 3 and digest = kd_top_k and ttl = 24 and ops = ?ops
      and q = "''q''" and ds = None and k = 4 and r = "''d''" and now = 6,
      THEN conjunct1, rule_format, OF p3]
  have full: "int (length (cache ?C)) = 3" unfolding cv by simp
  from a have "int (length (cache ?C)) = 3 \<longrightarrow>
      (\<exists>oldest rest. cache ?C = oldest # rest
         \<and> fst oldest \<notin> set (map fst rest)
         \<and> fst oldest = spec_oldest ?S
         \<and> list_ex (\<lambda>x. skey x = fst oldest \<and> list_all (\<lambda>y. inserted_by x \<le> inserted_by y) ?S) ?S
         \<and> cache_set kd_top_k ?C 6 ''q'' None 4 ''d''
             = Inr (?C\<lparr>cache := dict_set rest (generate_cache_key kd_top_k ''q'' None 4)
                     \<lparr>response = ''d'', cached_at = 6\<rparr>\<rparr>)
         \<and> (generate_cache_key kd_top_k ''q'' None 4 \<notin> set (map fst rest) \<longrightarrow>
               dict_set rest (generate_cache_key kd_top_k ''q'' None 4) \<lparr>response = ''d'', cached_at = 6\<rparr>
               = rest @ [(generate_cache_key kd_top_k ''q'' None 4, \<lparr>response = ''d'', cached_at = 6\<rparr>)]))"
    unfolding Let_def by (elim conjE) assumption
  with full obtain oldest rest where
    o: "cache ?C = oldest # rest"
    and s: "cache_set kd_top_k ?C 6 ''q'' None 4 ''d''
             = Inr (?C\<lparr>cache := dict_set rest (generate_cache_key kd_top_k ''q'' None 4)
                     \<lparr>response = ''d'', cached_at = 6\<rparr>\<rparr>)"
    by blast
  from o have rest: "rest = ?rest" unfolding cv by simp
  have w1: "\<exists>c'. cache_set kd_top_k ?C 6 ''q'' None 4 ''d'' = Inr c'
        \<and> cache c' = ?rest @ [(4, \<lparr>response = ''d'', cached_at = 6\<rparr>)]"
    unfolding s rest key by simp
  let ?f = "\<lambda>i. (int i, \<lparr>response = ''old'', cached_at = int i\<rparr>) :: int \<times> string cache_entry"
  let ?sets = "map (\<lambda>i. SetOp (int i) ''q'' None (int i) ''old'') [0..<500] :: string cache_op list"
  let ?tail = "[GetOp 500 ''q'' None 0, SetOp 501 ''q'' None 500 ''new''] :: string cache_op list"
  let ?D = "run_ops kd_top_k (new_cache 500 24) ?sets :: (int, string) response_cache"
  have "[0..<500] = 0 # [Suc 0..<500]" by (rule upt_conv_Cons) simp
  then have u: "[0..<500] = 0 # [1..<500]" by (simp only: One_nat_def)
  have se: "set_entries kd_top_k ?sets = map ?f [0..<500]"
    unfolding set_entries_sets key ..
  have se': "set_entries kd_top_k (?sets @ ?tail) = map ?f [0..<500] @ [(500, \<lparr>response = ''new'', cached_at = 501\<rparr>)]"
    unfolding set_entries_append se by (simp add: key)
  have p500: "0 < (500 :: int)" by simp
  have d1: "distinct (map fst (set_entries kd_top_k ?sets))"
    unfolding se by (simp add: distinct_map comp_def inj_on_def del: upt_rec_numeral)
  have d2: "distinct (map fst (set_entries kd_top_k (?sets @ ?tail)))"
    unfolding se' by (auto simp: distinct_map comp_def inj_on_def simp del: upt_rec_numeral)
  have t1: "list_all (\<lambda>op. 0 \<le> op_time op \<and> op_time op < 0 + timedelta_hours 24) ?sets"
    by (auto simp: list_all_iff timedelta_hours_def simp del: upt_rec_numeral)
  have t2: "list_all (\<lambda>op. 0 \<le> op_time op \<and> op_time op < 0 + timedelta_hours 24) (?sets @ ?tail)"
    using t1 by (simp add: timedelta_hours_def del: upt_rec_numeral)
  note b = cache_fifo_eviction [where capacity = 500 and digest = kd_top_k and ttl = 24 and T = 0,
      THEN conjunct2, THEN conjunct2, THEN conjunct1, rule_format]
  from b [where ops = ?sets] p500 d1 t1
  have "cache ?D = drop (length (set_entries kd_top_k ?sets) - nat 500) (set_entries kd_top_k ?sets)"
    by blast
  then have w2: "cache ?D = map ?f [0..<500]"
    unfolding se by (simp del: upt_rec_numeral)
  from b [where ops = "?sets @ ?tail"] p500 d2 t2
  have "cache (run_ops kd_top_k (new_cache 500 24) (?sets @ ?tail))
      = drop (length (set_entries kd_top_k (?sets @ ?tail)) - nat 500)
          (set_entries kd_top_k (?sets @ ?tail))"
    by blast
  then have w4: "cache (run_ops kd_top_k (new_cache 500 24) (?sets @ ?tail))
      = map ?f [1..<500] @ [(500, \<lparr>response = ''new'', cached_at = 501\<rparr>)]"
    unfolding se' by (simp add: u del: upt_rec_numeral)
  have tt: "ttl_hours ?D = 24" unfolding run_ops_ttl by (simp add: new_cache_def)
  have dg: "dict_get (cache ?D) (generate_cache_key kd_top_k ''q'' None 0)
      = Some \<lparr>response = ''old'', cached_at = 0\<rparr>"
    unfolding w2 unfolding u key by (simp add: dict_get_def)
  have w3: "fst (cache_get kd_top_k ?D 500 ''q'' None 0) = Some ''old''"
    unfolding cache_get_def Let_def dg tt by (simp add: timedelta_hours_def)
  have w0: "cache ?C = (1, \<lparr>response = ''a2'', cached_at = 3\<rparr>) # ?rest"
    "map (\<lambda>x. (skey x, inserted_by x)) ?S = [(3, 4), (2, 1), (1, 0)]"
    unfolding cv sv by simp_all
  from w0 w1 w2 w3 w4 show ?thesis by simp
qed

lemma cache_get_hit:
  "dict_get (cache c) (generate_cache_key digest q ds k) = Some e \<Longrightarrow>
   now < cached_at e + timedelta_hours (ttl_hours c) \<Longrightarrow>
   cache_get digest c now q ds k = (Some (response e), c)"
  by (simp add: cache_get_def Let_def)

lemma cache_get_expired:
  "distinct (map fst (cache c)) \<Longrightarrow>
   dict_get (cache c) (generate_cache_key digest q ds k) = Some e \<Longrightarrow>
   cached_at e + timedelta_hours (ttl_hours c) \<le> now \<Longrightarrow>
   \<exists>c'. cache_get digest c now q ds k = (None, c')
      \<and> cache c' = dict_del (cache c) (generate_cache_key digest q ds k)
      \<and> dict_get (cache c') (generate_cache_key digest q ds k) = None
      \<and> (\<forall>k'. k' \<noteq> generate_cache_key digest q ds k \<longrightarrow>
            dict_get (cache c') k' = dict_get (cache c) k')"
  by (simp add: cache_get_def Let_def dict_get_def map_of_dict_del_same map_of_dict_del_other)

lemma cache_get_miss:
  "dict_get (cache c) (generate_cache_key digest q ds k) = None \<Longrightarrow>
   cache_get digest c now q ds k = (None, c)"
  by (simp add: cache_get_def Let_def)

lemma cache_set_ttl:
  "cache_set digest c t q ds k r = Inr c1 \<Longrightarrow> ttl_hours c1 = ttl_hours c"
  by (auto simp: cache_set_def Let_def split: if_splits list.splits)

text \<open>
  Claim C4. \<^verbatim>\<open>get\<close> returns the stored response when the key is present
  and \<open>now < cached_at + ttl\<close>; when the entry is present but expired it
  deletes that entry, leaves the others, and returns a miss; when the key is
  absent it returns a miss. Hence a \<^verbatim>\<open>set\<close> followed by a \<^verbatim>\<open>get\<close> with
  the same parameters before the ttl has elapsed (at once, for a positive ttl)
  returns the stored response, and a \<^verbatim>\<open>get\<close> after the ttl has elapsed
  returns a miss and removes the entry.
\<close>

theorem cache_get_semantics:
  "(dict_get (cache c) (generate_cache_key digest q ds k) = Some e
      \<and> now < cached_at e + timedelta_hours (ttl_hours c) \<longrightarrow>
      cache_get digest c now q ds k = (Some (response e), c))
   \<and> (distinct (map fst (cache c))
       \<and> dict_get (cache c) (generate_cache_key digest q ds k) = Some e
       \<and> cached_at e + timedelta_hours (ttl_hours c) \<le> now \<longrightarrow>
       (\<exists>c'. cache_get digest c now q ds k = (None, c')
          \<and> cache c' = dict_del (cache c) (generate_cache_key digest q ds k)
          \<and> dict_get (cache c') (generate_cache_key digest q ds k) = None
          \<and> (\<forall>k'. k' \<noteq> generate_cache_key digest q ds k \<longrightarrow>
                dict_get (cache c') k' = dict_get (cache c) k')))
   \<and> (dict_get (cache c) (generate_cache_key digest q ds k) = None \<longrightarrow>
        cache_get digest c now q ds k = (None, c))
   \<and> (cache_set digest c t q ds k r = Inr c1 \<and> now < t + timedelta_hours (ttl_hours c) \<longrightarrow>
        cache_get digest c1 now q ds k = (Some r, c1))
   \<and> (cache_set digest c t q ds k r = Inr c1 \<and> 0 < ttl_hours c \<longrightarrow>
        cache_get digest c1 t q ds k = (Some r, c1))
   \<and> (distinct (map fst (cache c)) \<and> cache_set digest c t q ds k r = Inr c1
        \<and> t + timedelta_hours (ttl_hours c) \<le> now \<longrightarrow>
        (\<exists>c2. cache_get digest c1 now q ds k = (None, c2)
           \<and> dict_get (cache c2) (generate_cache_key digest q ds k) = None))"
proof (intro conjI impI; (elim conjE)?)
  let ?key = "generate_cache_key digest q ds k"
  let ?e = "\<lparr>response = r, cached_at = t\<rparr>"
  show "cache_get digest c now q ds k = (Some (response e), c)"
    if "dict_get (cache c) ?key = Some e" "now < cached_at e + timedelta_hours (ttl_hours c)"
    using that by (rule cache_get_hit)
  show "\<exists>c'. cache_get digest c now q ds k = (None, c')
          \<and> cache c' = dict_del (cache c) ?key
          \<and> dict_get (cache c') ?key = None
          \<and> (\<forall>k'. k' \<noteq> ?key \<longrightarrow> dict_get (cache c') k' = dict_get (cache c) k')"
    if "distinct (map fst (cache c))" "dict_get (cache c) ?key = Some e"
       "cached_at e + timedelta_hours (ttl_hours c) \<le> now"
    using that by (rule cache_get_expired)
  show "cache_get digest c now q ds k = (None, c)" if "dict_get (cache c) ?key = None"
    using that by (rule cache_get_miss)
  show "cache_get digest c1 now q ds k = (Some r, c1)"
    if s: "cache_set digest c t q ds k r = Inr c1" and n: "now < t + timedelta_hours (ttl_hours c)"
    using cache_get_hit [OF cache_set_present [OF s], of now] n cache_set_ttl [OF s] by simp
  show "cache_get digest c1 t q ds k = (Some r, c1)"
    if s: "cache_set digest c t q ds k r = Inr c1" and n: "0 < ttl_hours c"
    using cache_get_hit [OF cache_set_present [OF s], of t] n cache_set_ttl [OF s]
    by (simp add: timedelta_hours_def)
  show "\<exists>c2. cache_get digest c1 now q ds k = (None, c2) \<and> dict_get (cache c2) ?key = None"
    if d: "distinct (map fst (cache c))" and s: "cache_set digest c t q ds k r = Inr c1"
      and n: "t + timedelta_hours (ttl_hours c) \<le> now"
  proof -
    have "cached_at ?e + timedelta_hours (ttl_hours c1) \<le> now"
      using n cache_set_ttl [OF s] by simp
    from cache_get_expired [OF cache_set_distinct [OF d s] cache_set_present [OF s] this]
    show ?thesis by blast
  qed
qed

theorem cache_get_semantics_witness:
  "cache_get kd_query (new_cache 2 24) 1 ''Hi '' None 6 = (None :: string option, new_cache 2 24)
   \<and> (\<exists>c1. cache_set kd_query (new_cache 2 24) 0 ''Hi '' None 6 ''resp'' = Inr c1
          \<and> cache_get kd_query c1 0 ''Hi '' None 6 = (Some ''resp'', c1)
          \<and> cache_get kd_query c1 86399999999 '' hi'' None 6 = (Some ''resp'', c1)
          \<and> (\<exists>c2. cache_get kd_query c1 86400000000 ''Hi '' None 6 = (None, c2)
                 \<and> dict_get (cache c2) ''hi'' = None))"
proof -
  let ?c = "new_cache 2 24 :: (string, string) response_cache"
  let ?e = "\<lparr>response = ''resp'', cached_at = 0\<rparr>"
  let ?c1 = "\<lparr>cache = [(''hi'', ?e)], max_size = 2, ttl_hours = 24\<rparr>"
  have key: "generate_cache_key kd_query ''Hi '' None 6 = ''hi''"
    "generate_cache_key kd_query '' hi'' None 6 = ''hi''"
    by (simp_all add: generate_cache_key_def key_data_of_def py_strip_def py_lower_def
        lower_char_def is_space_def)
  have s: "cache_set kd_query ?c 0 ''Hi '' None 6 ''resp'' = Inr ?c1"
    by (simp add: cache_set_def key new_cache_def)
  have d: "distinct (map fst (cache ?c))" "dict_get (cache ?c) ''hi'' = None"
    "ttl_hours ?c = 24"
    by (simp_all add: new_cache_def dict_get_def)
  have d1: "distinct (map fst (cache ?c1))" "dict_get (cache ?c1) ''hi'' = Some ?e"
    by (simp_all add: dict_get_def)
  have a: "cache_get kd_query ?c 1 ''Hi '' None 6 = (None, ?c)"
    using cache_get_semantics [of ?c kd_query "''Hi ''" None 6 ?e 1 0 "''resp''" ?c1] d
    by (simp add: key)
  have b: "cache_get kd_query ?c1 0 ''Hi '' None 6 = (Some ''resp'', ?c1)"
    using cache_get_semantics [of ?c kd_query "''Hi ''" None 6 ?e 1 0 "''resp''" ?c1] s d
    by simp
  have c: "cache_get kd_query ?c1 86399999999 '' hi'' None 6 = (Some ''resp'', ?c1)"
    using cache_get_semantics [of ?c1 kd_query "'' hi''" None 6 ?e 86399999999 0 "''resp''" ?c1] d1
    by (simp add: key timedelta_hours_def)
  have e: "\<exists>c2. cache_get kd_query ?c1 86400000000 ''Hi '' None 6 = (None, c2)
                 \<and> dict_get (cache c2) ''hi'' = None"
    using cache_get_semantics [of ?c kd_query "''Hi ''" None 6 ?e 86400000000 0 "''resp''" ?c1] s d
    by (simp add: key timedelta_hours_def)
  from a s b c e show ?thesis by blast
qed

subsection \<open>Cache keys\<close>

lemma of_char_split:
  "(of_char (Char b0 b1 b2 b3 b4 b5 b6 b7) :: nat) =
     of_char (Char b0 b1 b2 b3 b4 False False False) + 32 * of_bool b5 + 64 * of_bool b6 + 128 * of_bool b7"
  by simp

lemma of_char_low: "(of_char (Char b0 b1 b2 b3 b4 False False False) :: nat) \<le> 31"
  by (cases b0; cases b1; cases b2; cases b3; cases b4; simp)

lemma lower_char_cases:
  "lower_char c = c \<or> (\<not> is_space c \<and> \<not> is_space (lower_char c))"
proof (cases c)
  case (Char b0 b1 b2 b3 b4 b5 b6 b7)
  let ?r = "of_char (Char b0 b1 b2 b3 b4 False False False) :: nat"
  let ?P = "(65 \<le> (of_char c :: nat) \<and> (of_char c :: nat) \<le> 90)
      \<or> (192 \<le> (of_char c :: nat) \<and> (of_char c :: nat) \<le> 222 \<and> (of_char c :: nat) \<noteq> 215)"
  show ?thesis
  proof (cases ?P)
    case False
    have "lower_char c = c" unfolding lower_char_def Let_def using False by (rule if_not_P)
    then show ?thesis by simp
  next
    case True
    have "lower_char c = (case c of Char b0 b1 b2 b3 b4 b5 b6 b7 \<Rightarrow> Char b0 b1 b2 b3 b4 True b6 b7)"
      unfolding lower_char_def Let_def using True by (rule if_P)
    then have l: "lower_char c = Char b0 b1 b2 b3 b4 True b6 b7"
      by (simp add: Char)
    have n: "(of_char c :: nat) = ?r + 32 * of_bool b5 + 64 * of_bool b6 + 128 * of_bool b7"
      unfolding Char by (rule of_char_split)
    have n': "(of_char (lower_char c) :: nat) = ?r + 32 + 64 * of_bool b6 + 128 * of_bool b7"
      unfolding l using of_char_split [of b0 b1 b2 b3 b4 True b6 b7] by simp
    have r: "?r \<le> 31" by (rule of_char_low)
    have "\<not> is_space c \<and> \<not> is_space (lower_char c)"
      unfolding is_space_def Let_def n' using True r unfolding n
      by (cases b5; cases b6; cases b7; simp del: of_char_Char; arith)
    then show ?thesis by simp
  qed
qed

lemma is_space_lower_char [simp]: "is_space (lower_char c) = is_space c"
  using lower_char_cases [of c] by auto

lemma dropWhile_spaces: "\<forall>c \<in> set w. is_space c \<Longrightarrow> dropWhile is_space (w @ ys) = dropWhile is_space ys"
  by (rule dropWhile_append2) auto

lemma py_strip_surround:
  assumes "\<forall>c \<in> set w1. is_space c" "\<forall>c \<in> set w2. is_space c"
  shows "py_strip (w1 @ x @ w2) = py_strip x"
proof -
  have 1: "dropWhile is_space (w1 @ x @ w2) = dropWhile is_space (x @ w2)"
    using assms(1) by (rule dropWhile_spaces)
  have 2: "rev (dropWhile is_space (rev (dropWhile is_space (x @ w2))))
         = rev (dropWhile is_space (rev (dropWhile is_space x)))"
  proof (cases "\<forall>c \<in> set x. is_space c")
    case True
    have a: "dropWhile is_space (x @ w2) = []"
      using True assms(2) by auto
    have b: "dropWhile is_space x = []"
      using True by auto
    show ?thesis unfolding a b ..
  next
    case False
    then obtain c where "c \<in> set x" "\<not> is_space c" by blast
    then have a: "dropWhile is_space (x @ w2) = dropWhile is_space x @ w2"
      by (rule dropWhile_append1)
    have "\<forall>c \<in> set (rev w2). is_space c" using assms(2) by simp
    then have b: "dropWhile is_space (rev w2 @ rev (dropWhile is_space x))
        = dropWhile is_space (rev (dropWhile is_space x))"
      by (rule dropWhile_spaces)
    show ?thesis unfolding a rev_append b ..
  qed
  show ?thesis unfolding py_strip_def 1 2 ..
qed

lemma sort_mset_eq:
  assumes "mset xs = mset ys"
  shows "sort xs = sort (ys :: string list)"
proof (rule properties_for_sort)
  show "mset (sort ys) = mset xs" using assms by simp
  show "sorted (sort ys)" by simp
qed

lemma py_lower_append: "py_lower (xs @ ys) = py_lower xs @ py_lower ys"
  by (simp add: py_lower_def)

lemma all_space_py_lower: "(\<forall>c \<in> set (py_lower w). is_space c) = (\<forall>c \<in> set w. is_space c)"
  by (simp add: py_lower_def)

lemma py_strip_lower_surround:
  assumes "\<forall>c \<in> set w1. is_space c" "\<forall>c \<in> set w2. is_space c"
  shows "py_strip (py_lower (w1 @ s @ w2)) = py_strip (py_lower s)"
proof -
  have "\<forall>c \<in> set (py_lower w1). is_space c" "\<forall>c \<in> set (py_lower w2). is_space c"
    using assms by (simp_all only: all_space_py_lower)
  then have "py_strip (py_lower w1 @ py_lower s @ py_lower w2) = py_strip (py_lower s)"
    by (rule py_strip_surround)
  then show ?thesis by (simp only: py_lower_append)
qed

lemma sorted_doc_ids_eq:
  "(case doc_ids of None \<Rightarrow> [] | Some ds \<Rightarrow> if ds = [] then [] else sort ds) = sort (ids_of doc_ids)"
  by (simp add: ids_of_def split: option.splits)

lemma key_data_of_eq:
  assumes q: "py_strip (py_lower q1) = py_strip (py_lower q2)"
    and m: "mset (ids_of d1) = mset (ids_of d2)"
  shows "key_data_of q1 d1 k = key_data_of q2 d2 k"
proof -
  have "sort (ids_of d1) = sort (ids_of d2)" using m by (rule sort_mset_eq)
  then show ?thesis
    unfolding key_data_of_def sorted_doc_ids_eq Let_def q by (simp only:)
qed

lemma cache_get_key:
  "generate_cache_key digest q1 d1 k1 = generate_cache_key digest q2 d2 k2 \<Longrightarrow>
   cache_get digest c now q1 d1 k1 = cache_get digest c now q2 d2 k2"
  by (simp add: cache_get_def)

text \<open>
  Claim C9, amended. Two inputs of the key derivation give the same key, and so
  reach the same cache entry, when the queries are equal up to surrounding
  whitespace and letter case (equivalently, equal after lower-casing and
  stripping), the doc-id lists hold the same ids with the same multiplicities
  in any order, a missing list counting as the empty one, and \<open>top_k\<close> is the
  same.
\<close>

theorem cache_key_deterministic:
  "((\<forall>c \<in> set w1 \<union> set w2 \<union> set w3 \<union> set w4. is_space c) \<and> py_lower s1 = py_lower s2
      \<and> mset (ids_of doc_ids1) = mset (ids_of doc_ids2) \<longrightarrow>
      generate_cache_key digest (w1 @ s1 @ w2) doc_ids1 top_k
        = generate_cache_key digest (w3 @ s2 @ w4) doc_ids2 top_k
      \<and> cache_get digest c now (w1 @ s1 @ w2) doc_ids1 top_k
        = cache_get digest c now (w3 @ s2 @ w4) doc_ids2 top_k)
   \<and> (py_strip (py_lower q1) = py_strip (py_lower q2)
        \<and> mset (ids_of doc_ids1) = mset (ids_of doc_ids2) \<longrightarrow>
        generate_cache_key digest q1 doc_ids1 top_k = generate_cache_key digest q2 doc_ids2 top_k)
   \<and> generate_cache_key digest q1 None top_k = generate_cache_key digest q1 (Some []) top_k"
proof (intro conjI impI)
  assume a: "(\<forall>c \<in> set w1 \<union> set w2 \<union> set w3 \<union> set w4. is_space c) \<and> py_lower s1 = py_lower s2
      \<and> mset (ids_of doc_ids1) = mset (ids_of doc_ids2)"
  then have w: "\<forall>c \<in> set w1. is_space c" "\<forall>c \<in> set w2. is_space c"
    "\<forall>c \<in> set w3. is_space c" "\<forall>c \<in> set w4. is_space c"
    by blast+
  from a have l: "py_lower s1 = py_lower s2" and m: "mset (ids_of doc_ids1) = mset (ids_of doc_ids2)"
    by blast+
  have "py_strip (py_lower (w1 @ s1 @ w2)) = py_strip (py_lower (w3 @ s2 @ w4))"
    unfolding py_strip_lower_surround [OF w(1,2)] py_strip_lower_surround [OF w(3,4)] l ..
  then have "key_data_of (w1 @ s1 @ w2) doc_ids1 top_k = key_data_of (w3 @ s2 @ w4) doc_ids2 top_k"
    using m by (rule key_data_of_eq)
  then show k: "generate_cache_key digest (w1 @ s1 @ w2) doc_ids1 top_k
        = generate_cache_key digest (w3 @ s2 @ w4) doc_ids2 top_k"
    by (simp add: generate_cache_key_def)
  then show "cache_get digest c now (w1 @ s1 @ w2) doc_ids1 top_k
        = cache_get digest c now (w3 @ s2 @ w4) doc_ids2 top_k"
    by (rule cache_get_key)
next
  assume "py_strip (py_lower q1) = py_strip (py_lower q2)
        \<and> mset (ids_of doc_ids1) = mset (ids_of doc_ids2)"
  then have "key_data_of q1 doc_ids1 top_k = key_data_of q2 doc_ids2 top_k"
    by (intro key_data_of_eq) blast+
  then show "generate_cache_key digest q1 doc_ids1 top_k = generate_cache_key digest q2 doc_ids2 top_k"
    by (simp add: generate_cache_key_def)
next
  show "generate_cache_key digest q1 None top_k = generate_cache_key digest q1 (Some []) top_k"
    by (simp add: generate_cache_key_def key_data_of_def)
qed

lemma suffix_shape:
  "cache_key_suffix h r m = [] \<or>
   (cache_key_suffix h r m \<noteq> [] \<and> \<not> is_space (hd (cache_key_suffix h r m))
      \<and> \<not> is_space (last (cache_key_suffix h r m)))"
  by (simp add: cache_key_suffix_def is_space_def)

lemma suffix_lower: "py_lower (cache_key_suffix h r m) = cache_key_suffix h r m"
  by (simp add: cache_key_suffix_def py_lower_def lower_char_def)

lemma suffix_inj:
  "cache_key_suffix h1 r1 m1 = cache_key_suffix h2 r2 m2 \<Longrightarrow>
   truthy h1 = truthy h2 \<and> truthy r1 = truthy r2 \<and> truthy m1 = truthy m2"
  by (cases "truthy h1"; cases "truthy r1"; cases "truthy m1";
      cases "truthy h2"; cases "truthy r2"; cases "truthy m2")
     (simp_all add: cache_key_suffix_def)

lemma dropWhile_hd: "s \<noteq> [] \<Longrightarrow> \<not> P (hd s) \<Longrightarrow> dropWhile P s = s"
  by (cases s) simp_all

lemma py_strip_suffix:
  assumes "s \<noteq> []" "\<not> is_space (hd s)" "\<not> is_space (last s)"
  shows "py_strip (x @ s) = dropWhile is_space x @ s"
proof -
  have 1: "dropWhile is_space (x @ s) = dropWhile is_space x @ s"
  proof (cases "\<forall>c \<in> set x. is_space c")
    case True
    then have "dropWhile is_space (x @ s) = dropWhile is_space s" by (rule dropWhile_spaces)
    moreover have "dropWhile is_space x = []" using True by auto
    ultimately show ?thesis using assms by (simp add: dropWhile_hd)
  next
    case False
    then obtain c where "c \<in> set x" "\<not> is_space c" by blast
    then show ?thesis by (rule dropWhile_append1)
  qed
  have "rev s \<noteq> []" "\<not> is_space (hd (rev s))" using assms by (simp_all add: hd_rev)
  then have "dropWhile is_space (rev s @ ys) = rev s @ ys" for ys
    by (intro dropWhile_hd) simp_all
  then show ?thesis unfolding py_strip_def 1 by simp
qed

lemma strip_decompose:
  "\<exists>w. (\<forall>c \<in> set w. is_space c) \<and> dropWhile is_space x = py_strip x @ w"
proof -
  let ?y = "dropWhile is_space x"
  have "rev ?y = takeWhile is_space (rev ?y) @ dropWhile is_space (rev ?y)" by simp
  then have "?y = rev (dropWhile is_space (rev ?y)) @ rev (takeWhile is_space (rev ?y))"
    by (metis rev_append rev_rev_ident)
  moreover have "\<forall>c \<in> set (rev (takeWhile is_space (rev ?y))). is_space c"
    by (auto dest: set_takeWhileD)
  ultimately show ?thesis unfolding py_strip_def by blast
qed

lemma normalized_suffix_neq:
  assumes n: "py_strip (py_lower q1) = py_strip (py_lower q2)"
    and d: "cache_key_suffix h1 r1 m1 \<noteq> cache_key_suffix h2 r2 m2"
  shows "py_strip (py_lower (q1 @ cache_key_suffix h1 r1 m1))
       \<noteq> py_strip (py_lower (q2 @ cache_key_suffix h2 r2 m2))"
proof
  let ?s1 = "cache_key_suffix h1 r1 m1" and ?s2 = "cache_key_suffix h2 r2 m2"
  assume "py_strip (py_lower (q1 @ ?s1)) = py_strip (py_lower (q2 @ ?s2))"
  then have e: "py_strip (py_lower q1 @ ?s1) = py_strip (py_lower q2 @ ?s2)"
    by (simp only: py_lower_append suffix_lower)
  obtain w1 where w1: "\<forall>c \<in> set w1. is_space c"
    "dropWhile is_space (py_lower q1) = py_strip (py_lower q1) @ w1"
    using strip_decompose [of "py_lower q1"] by blast
  obtain w2 where w2: "\<forall>c \<in> set w2. is_space c"
    "dropWhile is_space (py_lower q2) = py_strip (py_lower q1) @ w2"
    using strip_decompose [of "py_lower q2"] n by auto
  have full: "py_strip (py_lower q @ cache_key_suffix h r m)
      = dropWhile is_space (py_lower q) @ cache_key_suffix h r m"
    if "cache_key_suffix h r m \<noteq> []" for q h r m
    using that suffix_shape [of h r m] by (intro py_strip_suffix) auto
  show False
  proof (cases "?s1 = []")
    case True
    with d have s2: "?s2 \<noteq> []" by simp
    from e True full [OF s2] w2 have "py_strip (py_lower q1) = py_strip (py_lower q1) @ w2 @ ?s2"
      by simp
    with s2 show False by simp
  next
    case s1: False
    show False
    proof (cases "?s2 = []")
      case True
      from e True full [OF s1] w1 n have "py_strip (py_lower q1) @ w1 @ ?s1 = py_strip (py_lower q1)"
        by simp
      with s1 show False by simp
    next
      case s2: False
      from e full [OF s1] full [OF s2] w1 w2 have "w1 @ ?s1 = w2 @ ?s2" by simp
      then have "dropWhile is_space (w1 @ ?s1) = dropWhile is_space (w2 @ ?s2)" by simp
      then have "dropWhile is_space ?s1 = dropWhile is_space ?s2"
        by (simp only: dropWhile_spaces [OF w1(1)] dropWhile_spaces [OF w2(1)])
      moreover have "dropWhile is_space ?s1 = ?s1" "dropWhile is_space ?s2 = ?s2"
        using s1 s2 suffix_shape [of h1 r1 m1] suffix_shape [of h2 r2 m2]
        by (auto intro: dropWhile_hd)
      ultimately show False using d by simp
    qed
  qed
qed

theorem cache_key_deterministic_witness:
  "generate_cache_key id ''  What IS bm25 '' (Some [''doc-b'', ''doc-a'']) 6
     = generate_cache_key id ''what is BM25'' (Some [''doc-a'', ''doc-b'']) 6
   \<and> generate_cache_key id ''Hi'' None 6 = generate_cache_key id ''hi '' (Some []) 6"
proof -
  have w: "\<forall>c \<in> set ''  '' \<union> set '' '' \<union> set [] \<union> set []. is_space c"
    by (simp add: is_space_def)
  have l: "py_lower ''What IS bm25'' = py_lower ''what is BM25''"
    by (simp add: py_lower_def lower_char_def)
  have m: "mset (ids_of (Some [''doc-b'', ''doc-a''])) = mset (ids_of (Some [''doc-a'', ''doc-b'']))"
    by (simp add: ids_of_def)
  have n: "py_strip (py_lower ''Hi'') = py_strip (py_lower ''hi '')"
    by (simp add: py_lower_def lower_char_def py_strip_def is_space_def)
  have m': "mset (ids_of None) = mset (ids_of (Some []))"
    by (simp add: ids_of_def)
  from cache_key_deterministic [of "''  ''" "'' ''" "[]" "[]" "''What IS bm25''" "''what is BM25''"
      "Some [''doc-b'', ''doc-a'']" "Some [''doc-a'', ''doc-b'']" id 6 "new_cache 500 24" 0 "''Hi''" "''hi ''"]
    w l m
  have 1: "generate_cache_key id (''  '' @ ''What IS bm25'' @ '' '') (Some [''doc-b'', ''doc-a'']) 6
     = generate_cache_key id ([] @ ''what is BM25'' @ []) (Some [''doc-a'', ''doc-b'']) 6"
    by blast
  from cache_key_deterministic [of "[]" "[]" "[]" "[]" "[]" "[]" None "Some []" id 6
      "new_cache 500 24" 0 "''Hi''" "''hi ''"] n m'
  have 2: "generate_cache_key id ''Hi'' None 6 = generate_cache_key id ''hi '' (Some []) 6"
    by blast
  from 1 2 show ?thesis by simp
qed

text \<open>
  Claim C9 as stated, with doc-id lists equal as sets, fails: \<^verbatim>\<open>sorted\<close>
  keeps duplicates, so \<^verbatim>\<open>["doc-a", "doc-a"]\<close> and \<^verbatim>\<open>["doc-a"]\<close> give two
  different dicts to serialise and hash (shown with the identity in the place
  of the digest).
\<close>

theorem cache_key_deterministic_counterexample:
  "set [''doc-a'', ''doc-a''] = set [''doc-a'']
   \<and> key_data_of ''q'' (Some [''doc-a'', ''doc-a'']) 6 \<noteq> key_data_of ''q'' (Some [''doc-a'']) 6
   \<and> generate_cache_key id ''q'' (Some [''doc-a'', ''doc-a'']) 6
       \<noteq> generate_cache_key id ''q'' (Some [''doc-a'']) 6"
  by (simp add: generate_cache_key_def key_data_of_def)

text \<open>
  Claim C10. Two \<^verbatim>\<open>/ask\<close> requests with the same normalised query text,
  \<open>doc_ids\<close> and \<open>top_k\<close> whose flags differ (as truth values) are hashed
  from different dicts; with a digest that does not collide their keys differ,
  and the response stored for one is not found by the other. The store and the
  lookup of one request use the same suffix, so a request finds its own entry.
\<close>

theorem ask_cache_flags:
  "((truthy h1, truthy r1, truthy m1) \<noteq> (truthy h2, truthy r2, truthy m2)
      \<and> py_strip (py_lower q1) = py_strip (py_lower q2) \<longrightarrow>
      key_data_of (q1 @ cache_key_suffix h1 r1 m1) ds k
        \<noteq> key_data_of (q2 @ cache_key_suffix h2 r2 m2) ds k)
   \<and> ((truthy h1, truthy r1, truthy m1) \<noteq> (truthy h2, truthy r2, truthy m2)
      \<and> py_strip (py_lower q1) = py_strip (py_lower q2) \<and> inj digest \<longrightarrow>
      generate_cache_key digest (q1 @ cache_key_suffix h1 r1 m1) ds k
        \<noteq> generate_cache_key digest (q2 @ cache_key_suffix h2 r2 m2) ds k)
   \<and> ((truthy h1, truthy r1, truthy m1) \<noteq> (truthy h2, truthy r2, truthy m2)
      \<and> py_strip (py_lower q1) = py_strip (py_lower q2) \<and> inj digest
      \<and> dict_get (cache c) (generate_cache_key digest (q2 @ cache_key_suffix h2 r2 m2) ds k) = None
      \<and> ask_cache_store digest c t q1 ds k h1 r1 m1 x = Inr c1 \<longrightarrow>
      ask_cache_lookup digest c1 now q2 ds k h2 r2 m2 = (None, c1))
   \<and> (ask_cache_store digest c t q1 ds k h1 r1 m1 x = Inr c1
        \<and> now < t + timedelta_hours (ttl_hours c) \<longrightarrow>
        ask_cache_lookup digest c1 now q1 ds k h1 r1 m1 = (Some x, c1))"
proof -
  let ?s1 = "cache_key_suffix h1 r1 m1" and ?s2 = "cache_key_suffix h2 r2 m2"
  let ?k1 = "generate_cache_key digest (q1 @ ?s1) ds k"
  let ?k2 = "generate_cache_key digest (q2 @ ?s2) ds k"
  have kd: "key_data_of (q1 @ ?s1) ds k \<noteq> key_data_of (q2 @ ?s2) ds k"
    if "(truthy h1, truthy r1, truthy m1) \<noteq> (truthy h2, truthy r2, truthy m2)"
      and n: "py_strip (py_lower q1) = py_strip (py_lower q2)"
  proof -
    from that(1) have "?s1 \<noteq> ?s2" using suffix_inj [of h1 r1 m1 h2 r2 m2] by auto
    from normalized_suffix_neq [OF n this]
    have "kd_query (key_data_of (q1 @ ?s1) ds k) \<noteq> kd_query (key_data_of (q2 @ ?s2) ds k)"
      by (simp add: key_data_of_def)
    then show ?thesis by auto
  qed
  have keys: "?k1 \<noteq> ?k2"
    if "(truthy h1, truthy r1, truthy m1) \<noteq> (truthy h2, truthy r2, truthy m2)"
      and "py_strip (py_lower q1) = py_strip (py_lower q2)" and "inj digest"
    using kd [OF that(1,2)] that(3) by (auto simp: generate_cache_key_def dest: injD)
  have miss: "ask_cache_lookup digest c1 now q2 ds k h2 r2 m2 = (None, c1)"
    if f: "(truthy h1, truthy r1, truthy m1) \<noteq> (truthy h2, truthy r2, truthy m2)"
      and n: "py_strip (py_lower q1) = py_strip (py_lower q2)" and i: "inj digest"
      and a: "dict_get (cache c) ?k2 = None"
      and s: "ask_cache_store digest c t q1 ds k h1 r1 m1 x = Inr c1"
  proof -
    from s have s': "cache_set digest c t (q1 @ ?s1) ds k x = Inr c1"
      by (simp add: ask_cache_store_def)
    have ne: "?k2 \<noteq> ?k1" using keys [OF f n i] by simp
    have "dict_get (cache c1) ?k2 = None"
      using s' a ne
      by (auto simp: cache_set_def Let_def dict_get_def map_of_dict_del_other
          split: if_splits list.splits)
    then show ?thesis unfolding ask_cache_lookup_def by (rule cache_get_miss)
  qed
  have hit: "ask_cache_lookup digest c1 now q1 ds k h1 r1 m1 = (Some x, c1)"
    if s: "ask_cache_store digest c t q1 ds k h1 r1 m1 x = Inr c1"
      and n: "now < t + timedelta_hours (ttl_hours c)"
  proof -
    from s have s': "cache_set digest c t (q1 @ ?s1) ds k x = Inr c1"
      by (simp add: ask_cache_store_def)
    show ?thesis unfolding ask_cache_lookup_def
      using cache_get_hit [OF cache_set_present [OF s'], of now] n cache_set_ttl [OF s'] by simp
  qed
  from kd keys miss hit show ?thesis by blast
qed

theorem ask_cache_flags_witness:
  "generate_cache_key id (''what is rrf'' @ cache_key_suffix (Some True) None (Some False)) None 6
     \<noteq> generate_cache_key id (''What is RRF '' @ cache_key_suffix (Some True) (Some True) None) None 6
   \<and> (\<exists>c1. ask_cache_store id (new_cache 500 24) 0 ''what is rrf'' None 6 (Some True) None (Some False) ''answer''
            = Inr c1
       \<and> ask_cache_lookup id c1 1 ''What is RRF '' None 6 (Some True) (Some True) None = (None, c1)
       \<and> ask_cache_lookup id c1 1 ''what is rrf'' None 6 (Some True) None (Some False) = (Some ''answer'', c1))"
proof -
  let ?c = "new_cache 500 24 :: (key_data, string) response_cache"
  have f: "(truthy (Some True), truthy None, truthy (Some False))
      \<noteq> (truthy (Some True), truthy (Some True), truthy None)"
    by (simp add: truthy_def)
  have n: "py_strip (py_lower ''what is rrf'') = py_strip (py_lower ''What is RRF '')"
    by (simp add: py_lower_def lower_char_def py_strip_def is_space_def)
  have i: "inj (id :: key_data \<Rightarrow> key_data)" by simp
  have a: "dict_get (cache ?c)
      (generate_cache_key id (''What is RRF '' @ cache_key_suffix (Some True) (Some True) None) None 6) = None"
    by (simp add: new_cache_def dict_get_def)
  obtain c1 where s: "ask_cache_store id ?c 0 ''what is rrf'' None 6 (Some True) None (Some False) ''answer'' = Inr c1"
    by (simp add: ask_cache_store_def cache_set_def new_cache_def)
  have t: "(1::int) < 0 + timedelta_hours (ttl_hours ?c)"
    by (simp add: new_cache_def timedelta_hours_def)
  note th = ask_cache_flags [of "Some True" None "Some False" "Some True" "Some True" None
      "''what is rrf''" "''What is RRF ''" None 6 id ?c 0 "''answer''" c1 1]
  from th f n i have 1: "generate_cache_key id (''what is rrf'' @ cache_key_suffix (Some True) None (Some False)) None 6
     \<noteq> generate_cache_key id (''What is RRF '' @ cache_key_suffix (Some True) (Some True) None) None 6"
    by blast
  from th f n i a s have 2: "ask_cache_lookup id c1 1 ''What is RRF '' None 6 (Some True) (Some True) None = (None, c1)"
    by blast
  from th s t have 3: "ask_cache_lookup id c1 1 ''what is rrf'' None 6 (Some True) None (Some False) = (Some ''answer'', c1)"
    by blast
  from 1 2 3 s show ?thesis by blast
qed

end
